theory Spec2Isabelle
  imports Complex_Main "HOL-Library.AList"
begin

section \<open>Python values\<close>

text \<open>
  A Python \<^verbatim>\<open>str\<close> is a sequence of Unicode code points, so it is modelled as a list of
  natural numbers; \<open>len\<close> is \<open>length\<close>. \<open>py\<close> writes a literal of the source.
\<close>

type_synonym pystr = "nat list"

definition py :: "string \<Rightarrow> pystr" where
  "py s = map of_char s"

text \<open>
  An awaited library call (\<^verbatim>\<open>session.post\<close>, \<^verbatim>\<open>response.json()\<close>,
  \<^verbatim>\<open>response.text()\<close>) either returns its value or raises an \<^verbatim>\<open>Exception\<close>,
  whose \<^verbatim>\<open>str(e)\<close> is kept.
\<close>

datatype 'a awaited = Returns 'a | Raises pystr

section \<open>real\_debrid\_api\_client.py: the link resolver\<close>

text \<open>
  The JSON object of a successful unrestrict call, with its keys \<^verbatim>\<open>download\<close>,
  \<^verbatim>\<open>filename\<close>, \<^verbatim>\<open>filesize\<close> and \<^verbatim>\<open>mimeType\<close>. The source reads it with
  \<^verbatim>\<open>.get\<close>, so every key may be missing.
\<close>

record unrestricted =
  u_download :: "pystr option"
  u_filename :: "pystr option"
  u_filesize :: "int option"
  u_mimeType :: "pystr option"

text \<open>
  What one \<^verbatim>\<open>session.post\<close> gives: it raises, or it gives a response with a
  status, whose JSON and text bodies are awaited separately by the source.
\<close>

datatype reply =
    Response nat "unrestricted awaited" "pystr awaited"
  | Post_raises pystr

text \<open>
  The dictionaries \<^verbatim>\<open>unrestrict_link\<close> returns, one constructor per \<^verbatim>\<open>"status"\<close>:
  \<^verbatim>\<open>success\<close> (link, result), \<^verbatim>\<open>failed_rate_limit\<close> (link; error
  \<^verbatim>\<open>rate_limit_exceeded\<close>), \<^verbatim>\<open>retry_next_cycle\<close> (link, retry\_count; error
  \<^verbatim>\<open>server_unavailable\<close>), \<^verbatim>\<open>failed_other\<close> (link, error text, http\_status) and
  \<^verbatim>\<open>exception\<close> (link, str(e)).
\<close>

datatype outcome =
    Success pystr unrestricted
  | Failed_rate_limit pystr
  | Retry_next_cycle pystr nat
  | Failed_other pystr pystr nat
  | Exception_outcome pystr pystr

fun status_of :: "outcome \<Rightarrow> pystr" where
  "status_of (Success l r) = py ''success''"
| "status_of (Failed_rate_limit l) = py ''failed_rate_limit''"
| "status_of (Retry_next_cycle l n) = py ''retry_next_cycle''"
| "status_of (Failed_other l e h) = py ''failed_other''"
| "status_of (Exception_outcome l e) = py ''exception''"

fun link_of :: "outcome \<Rightarrow> pystr" where
  "link_of (Success l r) = l"
| "link_of (Failed_rate_limit l) = l"
| "link_of (Retry_next_cycle l n) = l"
| "link_of (Failed_other l e h) = l"
| "link_of (Exception_outcome l e) = l"

text \<open>\<^verbatim>\<open>r.get('result')\<close>: only a success carries the key.\<close>

fun result_of :: "outcome \<Rightarrow> unrestricted option" where
  "result_of (Success l r) = Some r"
| "result_of _ = None"

text \<open>\<^verbatim>\<open>r.get('error')\<close>: every other outcome carries the key.\<close>

fun error_of :: "outcome \<Rightarrow> pystr option" where
  "error_of (Success l r) = None"
| "error_of (Failed_rate_limit l) = Some (py ''rate_limit_exceeded'')"
| "error_of (Retry_next_cycle l n) = Some (py ''server_unavailable'')"
| "error_of (Failed_other l e h) = Some e"
| "error_of (Exception_outcome l e) = Some e"

text \<open>
  What the resolver does to the outside, in order: a POST of a link to the unrestrict
  endpoint, or an \<^verbatim>\<open>asyncio.sleep\<close> of so many seconds. The waits are floats in the
  source (\<open>2.0\<close>, \<open>4.0\<close>, \<open>10.0\<close>); the model keeps their exact value. The calls of
  \<^verbatim>\<open>_enforce_rate_limit\<close> only delay the POST that follows and are not recorded.
\<close>

datatype event = Post pystr | Sleep nat

record client =
  retry_503_attempts :: int
  retry_429_attempts :: int

text \<open>
  \<^verbatim>\<open>unrestrict_link\<close>: the \<^verbatim>\<open>while True\<close> loop. \<open>srv n\<close> is the reply to the
  \<open>n\<close>-th POST of this call (counted from 0), \<open>a429\<close> and \<open>a503\<close> are
  \<^verbatim>\<open>rate_limit_attempts\<close> and \<^verbatim>\<open>server_error_attempts\<close>, \<open>evs\<close> the events so
  far. Everything raised inside the \<^verbatim>\<open>try\<close> ends the call with the
  \<^verbatim>\<open>exception\<close> outcome.
\<close>

function unrestrict_loop ::
  "client \<Rightarrow> (nat \<Rightarrow> reply) \<Rightarrow> pystr \<Rightarrow> nat \<Rightarrow> nat \<Rightarrow> nat \<Rightarrow> event list
    \<Rightarrow> outcome \<times> event list"
where
  "unrestrict_loop c srv link n a429 a503 evs =
    (let evs1 = evs @ [Post link] in
     case srv n of
       Post_raises e \<Rightarrow> (Exception_outcome link e, evs1)
     | Response st js tx \<Rightarrow>
        if st = 200 then
          (case js of
             Returns result \<Rightarrow> (Success link result, evs1)
           | Raises e \<Rightarrow> (Exception_outcome link e, evs1))
        else if st = 429 then
          (if int (a429 + 1) \<le> retry_429_attempts c then
             unrestrict_loop c srv link (n + 1) (a429 + 1) a503
               (evs1 @ [Sleep (2 * 2 ^ ((a429 + 1) - 1))])
           else
             (case tx of
                Returns error_text \<Rightarrow> (Failed_rate_limit link, evs1)
              | Raises e \<Rightarrow> (Exception_outcome link e, evs1)))
        else if st = 503 then
          (if int (a503 + 1) \<le> retry_503_attempts c then
             (case tx of
                Returns error_text \<Rightarrow>
                  unrestrict_loop c srv link (n + 1) a429 (a503 + 1) (evs1 @ [Sleep 10])
              | Raises e \<Rightarrow> (Exception_outcome link e, evs1))
           else
             (case tx of
                Returns error_text \<Rightarrow> (Retry_next_cycle link (a503 + 1), evs1)
              | Raises e \<Rightarrow> (Exception_outcome link e, evs1)))
        else
          (case tx of
             Returns error_text \<Rightarrow> (Failed_other link error_text st, evs1)
           | Raises e \<Rightarrow> (Exception_outcome link e, evs1)))"
  by pat_completeness auto
termination
  by (relation "measure (\<lambda>(c, srv, link, n, a429, a503, evs).
        nat (retry_429_attempts c - int a429) + nat (retry_503_attempts c - int a503))")
     auto

definition unrestrict_link :: "client \<Rightarrow> (nat \<Rightarrow> reply) \<Rightarrow> pystr \<Rightarrow> outcome \<times> event list" where
  "unrestrict_link c srv link = unrestrict_loop c srv link 0 0 0 []"

text \<open>The number of HTTP attempts of a call: the POST events of its trace.\<close>

definition attempts :: "event list \<Rightarrow> nat" where
  "attempts evs = length (filter (\<lambda>e. case e of Post l \<Rightarrow> True | Sleep s \<Rightarrow> False) evs)"

text \<open>A reply with the given status whose text body can be read.\<close>

fun has_status :: "nat \<Rightarrow> reply \<Rightarrow> bool" where
  "has_status st (Response st' js (Returns t)) = (st' = st)"
| "has_status st _ = False"

section \<open>real\_debrid\_api\_client.py: the torrent catalog\<close>

text \<open>
  A torrent of the listing endpoint. The source reads \<^verbatim>\<open>filename\<close>, \<^verbatim>\<open>status\<close> and
  \<^verbatim>\<open>links\<close> with \<^verbatim>\<open>.get\<close>; a missing \<^verbatim>\<open>links\<close> is the empty list.
\<close>

record torrent =
  tid :: pystr
  tname :: "pystr option"
  tstatus :: "pystr option"
  tlinks :: "pystr list"

text \<open>
  What one \<^verbatim>\<open>session.get\<close> of a page gives: it raises, or it gives a response with a
  status, its JSON body (the list of torrents) and its text body.
\<close>

datatype page_reply =
    Page nat "torrent list awaited" "pystr awaited"
  | Get_raises pystr

definition page_limit :: nat where
  "page_limit = 100"

text \<open>
  \<^verbatim>\<open>fetch_torrents\<close>: the \<^verbatim>\<open>while True\<close> loop. \<open>srv p\<close> is the reply to the request
  for page \<open>p\<close>, \<open>acc\<close> is \<^verbatim>\<open>all_torrents\<close>, \<open>reqs\<close> the requests sent so far, each
  with its \<^verbatim>\<open>page\<close> and \<^verbatim>\<open>limit\<close> parameters. Every \<^verbatim>\<open>break\<close> and the
  \<^verbatim>\<open>except\<close> clause return \<^verbatim>\<open>all_torrents\<close>.
\<close>

function fetch_loop ::
  "(nat \<Rightarrow> page_reply) \<Rightarrow> nat \<Rightarrow> torrent list \<Rightarrow> (nat \<times> nat) list
    \<Rightarrow> torrent list \<times> (nat \<times> nat) list"
where
  "fetch_loop srv page acc reqs =
    (let reqs1 = reqs @ [(page, page_limit)] in
     case srv page of
       Get_raises e \<Rightarrow> (acc, reqs1)
     | Page st js tx \<Rightarrow>
        if st = 200 then
          (case js of
             Raises e \<Rightarrow> (acc, reqs1)
           | Returns data \<Rightarrow>
              if data = [] then (acc, reqs1)
              else if length data < page_limit then (acc @ data, reqs1)
              else if page + 1 > 1000 then (acc @ data, reqs1)
              else fetch_loop srv (page + 1) (acc @ data) reqs1)
        else if st = 404 then (acc, reqs1)
        else (acc, reqs1))"
  by pat_completeness auto
termination
  by (relation "measure (\<lambda>(srv, page, acc, reqs). 1000 - page)") auto

definition fetch_torrents :: "(nat \<Rightarrow> page_reply) \<Rightarrow> torrent list \<times> (nat \<times> nat) list" where
  "fetch_torrents srv = fetch_loop srv 1 [] []"

text \<open>A page after which the loop goes on: status 200 and at least \<^verbatim>\<open>limit\<close> torrents.\<close>

fun full_page :: "page_reply \<Rightarrow> bool" where
  "full_page (Page st (Returns d) tx) = (st = 200 \<and> page_limit \<le> length d)"
| "full_page _ = False"

text \<open>What a page adds to \<^verbatim>\<open>all_torrents\<close>.\<close>

fun page_items :: "page_reply \<Rightarrow> torrent list" where
  "page_items (Page st (Returns d) tx) = (if st = 200 then d else [])"
| "page_items _ = []"

text \<open>
  The stopping conditions as the specification lists them for a requested page: fewer than
  \<^verbatim>\<open>limit\<close> items (an empty page among them), a 404, or the ceiling of 1000 pages.
\<close>

fun listed_stop :: "nat \<Rightarrow> page_reply \<Rightarrow> bool" where
  "listed_stop p (Page st (Returns d) tx) =
     (p = 1000 \<or> (st = 200 \<and> length d < page_limit) \<or> st = 404)"
| "listed_stop p (Page st (Raises e) tx) = (p = 1000 \<or> st = 404)"
| "listed_stop p (Get_raises e) = (p = 1000)"

section \<open>real\_debrid\_api\_client.py: the batch orchestrator\<close>

definition concurrency_limit :: nat where
  "concurrency_limit = 3"

text \<open>
  \<^verbatim>\<open>[links[i:i + self.concurrency_limit] for i in range(0, len(links), self.concurrency_limit)]\<close>
\<close>

function batches :: "'a list \<Rightarrow> 'a list list" where
  "batches xs =
     (if xs = [] then [] else take concurrency_limit xs # batches (drop concurrency_limit xs))"
  by pat_completeness auto
termination
  by (relation "measure length") (auto simp: concurrency_limit_def)

text \<open>
  \<^verbatim>\<open>asyncio.gather(*batch_tasks, return_exceptions=True)\<close>: one entry per task of the
  batch, in the order of the batch; an entry is the dictionary the task returned (\<open>Inr\<close>) or
  the exception it raised (\<open>Inl\<close>). \<^verbatim>\<open>unrestrict_link\<close> catches every
  \<^verbatim>\<open>Exception\<close> itself, so its tasks return. The task for the \<open>i\<close>-th link of the whole
  input sees the replies \<open>srv i\<close>; \<open>k\<close> is the index of the first link of the batch. The
  tasks of a batch run interleaved; the events of the batch are given task by task.
\<close>

definition gather ::
  "client \<Rightarrow> (nat \<Rightarrow> nat \<Rightarrow> reply) \<Rightarrow> nat \<Rightarrow> pystr list \<Rightarrow> (pystr + outcome) list \<times> event list"
where
  "gather c srv k batch =
     (map (\<lambda>(i, link). Inr (fst (unrestrict_link c (srv i) link)))
        (zip [k..<k + length batch] batch),
      concat (map (\<lambda>(i, link). snd (unrestrict_link c (srv i) link))
        (zip [k..<k + length batch] batch)))"

text \<open>
  The loop over the batches of \<^verbatim>\<open>unrestrict_links_batch\<close>: only the entries that are
  dictionaries are appended to \<^verbatim>\<open>results\<close>. The pause between two batches takes time
  only and is left out.
\<close>

fun process_batches ::
  "client \<Rightarrow> (nat \<Rightarrow> nat \<Rightarrow> reply) \<Rightarrow> nat \<Rightarrow> pystr list list \<Rightarrow> outcome list \<Rightarrow> event list
    \<Rightarrow> outcome list \<times> event list"
where
  "process_batches c srv k [] results evs = (results, evs)"
| "process_batches c srv k (batch # rest) results evs =
     (let (batch_results, batch_events) = gather c srv k batch in
      process_batches c srv (k + length batch) rest
        (results @ [r. Inr r \<leftarrow> batch_results]) (evs @ batch_events))"

definition unrestrict_links_batch ::
  "client \<Rightarrow> (nat \<Rightarrow> nat \<Rightarrow> reply) \<Rightarrow> pystr list \<Rightarrow> outcome list \<times> event list"
where
  "unrestrict_links_batch c srv links = process_batches c srv 0 (batches links) [] []"

section \<open>cycle\_manager.py: the scheduler\<close>

text \<open>
  What \<^verbatim>\<open>run_cycle\<close> or a sleep can raise, by the \<^verbatim>\<open>except\<close> clause that catches it: an
  \<^verbatim>\<open>Exception\<close> with its message, or one of the exceptions outside \<^verbatim>\<open>Exception\<close>, by
  which Python interrupts or ends a task.
\<close>

datatype signal = KeyboardInterrupt | CancelledError | SystemExit

datatype raised = Exception pystr | Signal signal

text \<open>
  What happens to one pass of the \<^verbatim>\<open>while True\<close> loop: \<^verbatim>\<open>run_cycle\<close> returns its summary
  (\<open>None\<close>) or raises, and the \<^verbatim>\<open>asyncio.sleep(self.cycle_interval)\<close> of the pass runs to
  its end (\<open>None\<close>) or is interrupted.
\<close>

record iteration =
  cycle_raises :: "raised option"
  sleep_interrupted :: "signal option"

datatype sched_event = Cycle_started nat | Cycle_failed nat pystr | Slept nat

text \<open>
  Where the scheduler is after the passes given: still in the loop, out of it by
  \<^verbatim>\<open>break\<close>, or left by an exception that no clause caught.
\<close>

datatype sched_state = Running | Stopped_by_user | Propagated signal

text \<open>
  \<^verbatim>\<open>run_scheduler\<close>: \<open>interval\<close> is \<^verbatim>\<open>self.cycle_interval\<close>, \<open>n\<close> is
  \<^verbatim>\<open>cycle_count\<close>. An exception raised by the sleep inside the \<^verbatim>\<open>except Exception\<close>
  clause is not caught by the clauses of the same \<^verbatim>\<open>try\<close>.
\<close>

fun run_scheduler ::
  "nat \<Rightarrow> nat \<Rightarrow> iteration list \<Rightarrow> sched_event list \<Rightarrow> sched_state \<times> nat \<times> sched_event list"
where
  "run_scheduler interval n [] evs = (Running, n, evs)"
| "run_scheduler interval n (it # its) evs =
     (let n1 = n + 1; evs1 = evs @ [Cycle_started n1] in
      case cycle_raises it of
        None \<Rightarrow>
          (case sleep_interrupted it of
             None \<Rightarrow> run_scheduler interval n1 its (evs1 @ [Slept interval])
           | Some KeyboardInterrupt \<Rightarrow> (Stopped_by_user, n1, evs1)
           | Some s \<Rightarrow> (Propagated s, n1, evs1))
      | Some (Signal KeyboardInterrupt) \<Rightarrow> (Stopped_by_user, n1, evs1)
      | Some (Signal s) \<Rightarrow> (Propagated s, n1, evs1)
      | Some (Exception e) \<Rightarrow>
          (case sleep_interrupted it of
             None \<Rightarrow> run_scheduler interval n1 its (evs1 @ [Cycle_failed n1 e, Slept interval])
           | Some s \<Rightarrow> (Propagated s, n1, evs1 @ [Cycle_failed n1 e])))"

text \<open>A pass without interrupt or termination signal: the cycle returns or raises an
  \<^verbatim>\<open>Exception\<close>, and the sleep is not interrupted.\<close>

fun quiet :: "iteration \<Rightarrow> bool" where
  "quiet it =
     (sleep_interrupted it = None \<and>
      (case cycle_raises it of Some (Signal s) \<Rightarrow> False | _ \<Rightarrow> True))"

text \<open>The events of the \<open>k\<close>-th pass when it is quiet.\<close>

fun quiet_events :: "nat \<Rightarrow> nat \<times> iteration \<Rightarrow> sched_event list" where
  "quiet_events interval (k, it) =
     (case cycle_raises it of
        Some (Exception e) \<Rightarrow> [Cycle_started k, Cycle_failed k e, Slept interval]
      | _ \<Rightarrow> [Cycle_started k, Slept interval])"

section \<open>Library functions of Python that the processor calls\<close>

text \<open>
  The tables of the interpreter's Unicode database that the source reaches through
  \<^verbatim>\<open>str.lower()\<close> and through the classes \<^verbatim>\<open>\w\<close> and \<^verbatim>\<open>\d\<close> of \<^verbatim>\<open>re\<close>. They are
  not code of the repository and depend on the Python version, so they are a parameter of
  every function that uses them. \<^verbatim>\<open>\d\<close> is the class of decimal digits; the full stop
  is not one of them.
\<close>

record pylib =
  str_lower :: "pystr \<Rightarrow> pystr"
  re_word :: "nat \<Rightarrow> bool"
  re_digit :: "nat \<Rightarrow> bool"

text \<open>
  Whitespace as \<^verbatim>\<open>str.strip()\<close>, \<^verbatim>\<open>str.split()\<close> and the class \<^verbatim>\<open>\s\<close> know it: the
  same set of code points for all three.
\<close>

definition is_space :: "nat \<Rightarrow> bool" where
  "is_space c =
     ((9 \<le> c \<and> c \<le> 13) \<or> (28 \<le> c \<and> c \<le> 32) \<or> c = 133 \<or> c = 160 \<or> c = 5760 \<or>
      (8192 \<le> c \<and> c \<le> 8202) \<or> c = 8232 \<or> c = 8233 \<or> c = 8239 \<or> c = 8287 \<or> c = 12288)"

definition strip :: "pystr \<Rightarrow> pystr" where
  "strip s = rev (dropWhile is_space (rev (dropWhile is_space s)))"

lemma length_dropWhile_less:
  "r \<noteq> [] \<Longrightarrow> \<not> P (hd r) \<Longrightarrow> length (dropWhile (\<lambda>c. \<not> P c) r) < length r"
  by (cases r) (auto simp: less_Suc_eq_le length_dropWhile_le)

text \<open>\<^verbatim>\<open>s.split()\<close>: the maximal runs of characters that are not whitespace.\<close>

function split_ws :: "pystr \<Rightarrow> pystr list" where
  "split_ws s =
     (let r = dropWhile is_space s in
      if r = [] then []
      else takeWhile (\<lambda>c. \<not> is_space c) r # split_ws (dropWhile (\<lambda>c. \<not> is_space c) r))"
  by pat_completeness auto
termination
proof (relation "measure length")
  show "wf (measure length)" by simp
next
  fix s r :: pystr
  assume r: "r = dropWhile is_space s" and ne: "r \<noteq> []"
  then have "\<not> is_space (hd r)" using hd_dropWhile [of is_space s] by simp
  with ne have "length (dropWhile (\<lambda>c. \<not> is_space c) r) < length r"
    by (rule length_dropWhile_less)
  also have "length r \<le> length s" unfolding r by (rule length_dropWhile_le)
  finally show "(dropWhile (\<lambda>c. \<not> is_space c) r, s) \<in> measure length" by simp
qed

declare split_ws.simps [simp del]

text \<open>\<^verbatim>\<open>needle in hay\<close> for strings.\<close>

fun contains_str :: "pystr \<Rightarrow> pystr \<Rightarrow> bool" where
  "contains_str needle [] = (needle = [])"
| "contains_str needle (c # cs) =
     (take (length needle) (c # cs) = needle \<or> contains_str needle cs)"

subsection \<open>urllib.parse.unquote\<close>

definition is_hex :: "nat \<Rightarrow> bool" where
  "is_hex c = ((48 \<le> c \<and> c \<le> 57) \<or> (65 \<le> c \<and> c \<le> 70) \<or> (97 \<le> c \<and> c \<le> 102))"

definition hex_val :: "nat \<Rightarrow> nat" where
  "hex_val c = (if c \<le> 57 then c - 48 else if c \<le> 70 then c - 55 else c - 87)"

text \<open>\<^verbatim>\<open>unquote_to_bytes\<close> on a run of ASCII characters: every \<^verbatim>\<open>%XX\<close> becomes the byte
  \<open>XX\<close>; a percent sign not followed by two hexadecimal digits stays.\<close>

fun unquote_to_bytes :: "nat list \<Rightarrow> nat list" where
  "unquote_to_bytes (c # h1 # h2 # r) =
     (if c = 37 \<and> is_hex h1 \<and> is_hex h2 then (16 * hex_val h1 + hex_val h2) # unquote_to_bytes r
      else c # unquote_to_bytes (h1 # h2 # r))"
| "unquote_to_bytes (c # cs) = c # unquote_to_bytes cs"
| "unquote_to_bytes [] = []"

definition is_cont :: "nat \<Rightarrow> bool" where
  "is_cont c = (128 \<le> c \<and> c \<le> 191)"

text \<open>The second byte a lead byte of a three or four byte sequence admits.\<close>

definition second_ok :: "nat \<Rightarrow> nat \<Rightarrow> bool" where
  "second_ok b c =
     (if b = 224 then 160 \<le> c \<and> c \<le> 191
      else if b = 237 then 128 \<le> c \<and> c \<le> 159
      else if b = 240 then 144 \<le> c \<and> c \<le> 191
      else if b = 244 then 128 \<le> c \<and> c \<le> 143
      else is_cont c)"

text \<open>
  \<^verbatim>\<open>bytes.decode('utf-8', 'replace')\<close>: every ill-formed sequence (a byte that cannot start
  a sequence, or the longest prefix of a sequence that its next byte breaks, or a sequence
  cut off by the end) becomes one U+FFFD.
\<close>

fun utf8_decode :: "nat list \<Rightarrow> nat list" where
  "utf8_decode [] = []"
| "utf8_decode (b # bs) =
     (if b < 128 then b # utf8_decode bs
      else if 194 \<le> b \<and> b \<le> 223 then
        (case bs of
           [] \<Rightarrow> [65533]
         | c1 # r1 \<Rightarrow>
            if is_cont c1 then ((b - 192) * 64 + (c1 - 128)) # utf8_decode r1
            else 65533 # utf8_decode bs)
      else if 224 \<le> b \<and> b \<le> 239 then
        (case bs of
           [] \<Rightarrow> [65533]
         | c1 # r1 \<Rightarrow>
            if \<not> second_ok b c1 then 65533 # utf8_decode bs
            else
              (case r1 of
                 [] \<Rightarrow> [65533]
               | c2 # r2 \<Rightarrow>
                  if is_cont c2 then
                    ((b - 224) * 4096 + (c1 - 128) * 64 + (c2 - 128)) # utf8_decode r2
                  else 65533 # utf8_decode r1))
      else if 240 \<le> b \<and> b \<le> 244 then
        (case bs of
           [] \<Rightarrow> [65533]
         | c1 # r1 \<Rightarrow>
            if \<not> second_ok b c1 then 65533 # utf8_decode bs
            else
              (case r1 of
                 [] \<Rightarrow> [65533]
               | c2 # r2 \<Rightarrow>
                  if \<not> is_cont c2 then 65533 # utf8_decode r1
                  else
                    (case r2 of
                       [] \<Rightarrow> [65533]
                     | c3 # r3 \<Rightarrow>
                        if is_cont c3 then
                          ((b - 240) * 262144 + (c1 - 128) * 4096 + (c2 - 128) * 64 + (c3 - 128))
                            # utf8_decode r3
                        else 65533 # utf8_decode r2)))
      else 65533 # utf8_decode bs)"

text \<open>
  \<^verbatim>\<open>unquote\<close> on a string with a percent sign: the maximal runs of ASCII characters are
  unquoted to bytes and decoded, the characters between them are kept.
\<close>

function unquote_runs :: "pystr \<Rightarrow> pystr" where
  "unquote_runs s =
     (if s = [] then []
      else
        (let r = dropWhile (\<lambda>c. c < 128) s in
         utf8_decode (unquote_to_bytes (takeWhile (\<lambda>c. c < 128) s)) @
         takeWhile (\<lambda>c. \<not> c < 128) r @ unquote_runs (dropWhile (\<lambda>c. \<not> c < 128) r)))"
  by pat_completeness auto
termination
proof (relation "measure length")
  show "wf (measure length)" by simp
next
  fix s r :: pystr
  assume ne: "s \<noteq> []" and r: "r = dropWhile (\<lambda>c. c < 128) s"
  show "(dropWhile (\<lambda>c. \<not> c < 128) r, s) \<in> measure length"
  proof (cases "hd s < 128")
    case True
    with ne have "length r < length s"
      unfolding r by (cases s) (auto simp: less_Suc_eq_le length_dropWhile_le)
    moreover have "length (dropWhile (\<lambda>c. \<not> c < 128) r) \<le> length r"
      by (rule length_dropWhile_le)
    ultimately show ?thesis by simp
  next
    case False
    with ne have "r = s" unfolding r by (cases s) auto
    with ne False show ?thesis
      using length_dropWhile_less [of s "\<lambda>c. c < 128"] by simp
  qed
qed

declare unquote_runs.simps [simp del]

definition unquote :: "pystr \<Rightarrow> pystr" where
  "unquote s = (if 37 \<notin> set s then s else unquote_runs s)"

subsection \<open>pathlib on a POSIX system\<close>

text \<open>\<^verbatim>\<open>s.split('/')\<close>\<close>

fun split_slash :: "pystr \<Rightarrow> pystr list" where
  "split_slash [] = [[]]"
| "split_slash (c # cs) =
     (if c = 47 then [] # split_slash cs
      else (case split_slash cs of p # ps \<Rightarrow> (c # p) # ps | [] \<Rightarrow> [[c]]))"

text \<open>\<^verbatim>\<open>Path(s).name\<close>: the last component that is neither empty nor \<^verbatim>\<open>.\<close>\<close>

definition path_name :: "pystr \<Rightarrow> pystr" where
  "path_name s =
     (case filter (\<lambda>p. p \<noteq> [] \<and> p \<noteq> [46]) (split_slash s) of
        [] \<Rightarrow> []
      | p # ps \<Rightarrow> last (p # ps))"

text \<open>\<^verbatim>\<open>name.rfind('.')\<close> when the result \<open>i\<close> has \<^verbatim>\<open>0 < i < len(name) - 1\<close>.\<close>

definition suffix_at :: "pystr \<Rightarrow> nat option" where
  "suffix_at name =
     (let after = takeWhile (\<lambda>c. c \<noteq> 46) (rev name) in
      if 46 \<in> set name \<and> after \<noteq> [] \<and> length after + 1 < length name
      then Some (length name - length after - 1) else None)"

definition path_suffix :: "pystr \<Rightarrow> pystr" where
  "path_suffix s =
     (let name = path_name s in case suffix_at name of Some i \<Rightarrow> drop i name | None \<Rightarrow> [])"

definition path_stem :: "pystr \<Rightarrow> pystr" where
  "path_stem s =
     (let name = path_name s in case suffix_at name of Some i \<Rightarrow> take i name | None \<Rightarrow> name)"

subsection \<open>The substitutions of re.sub\<close>

text \<open>\<^verbatim>\<open>re.sub(r'[<>:"/\\|?*]', '_', s)\<close>\<close>

definition is_illegal :: "nat \<Rightarrow> bool" where
  "is_illegal c = (c \<in> {60, 62, 58, 34, 47, 92, 124, 63, 42})"

definition replace_illegal :: "pystr \<Rightarrow> pystr" where
  "replace_illegal s = map (\<lambda>c. if is_illegal c then 95 else c) s"

text \<open>\<^verbatim>\<open>re.sub(r'[\x00-\x1f\x7f-\x9f]', '', s)\<close>\<close>

definition is_ctrl :: "nat \<Rightarrow> bool" where
  "is_ctrl c = (c \<le> 31 \<or> (127 \<le> c \<and> c \<le> 159))"

definition remove_ctrl :: "pystr \<Rightarrow> pystr" where
  "remove_ctrl s = filter (\<lambda>c. \<not> is_ctrl c) s"

text \<open>\<^verbatim>\<open>re.sub(r'\.+$', '', s)\<close>: \<^verbatim>\<open>$\<close> matches at the end and before a newline that ends
  the string.\<close>

definition drop_trailing_dots :: "pystr \<Rightarrow> pystr" where
  "drop_trailing_dots s = rev (dropWhile (\<lambda>c. c = 46) (rev s))"

definition sub_trailing_dots :: "pystr \<Rightarrow> pystr" where
  "sub_trailing_dots s =
     (if s \<noteq> [] \<and> last s = 10 then drop_trailing_dots (butlast s) @ [10]
      else drop_trailing_dots s)"

text \<open>\<^verbatim>\<open>re.sub(r'\.[^.]+$', '', s)\<close>: the last full stop and what follows it, when something
  follows it.\<close>

definition strip_ext :: "pystr \<Rightarrow> pystr" where
  "strip_ext s =
     (if 46 \<in> set s \<and> takeWhile (\<lambda>c. c \<noteq> 46) (rev s) \<noteq> []
      then rev (tl (dropWhile (\<lambda>c. c \<noteq> 46) (rev s))) else s)"

text \<open>\<^verbatim>\<open>re.sub(r'^(hhd\d+\.com@|hdd\d+\.com@)', '', s)\<close>\<close>

definition strip_site_prefix :: "pylib \<Rightarrow> pystr \<Rightarrow> pystr" where
  "strip_site_prefix L s =
     (if take 3 s = py ''hhd'' \<or> take 3 s = py ''hdd'' then
        (let r = drop 3 s; rest = dropWhile (re_digit L) r in
         if takeWhile (re_digit L) r \<noteq> [] \<and> take 5 rest = py ''.com@'' then drop 5 rest else s)
      else s)"

text \<open>
  \<^verbatim>\<open>re.sub(r'(\.mp4|\.mkv|\.avi)$', '', s, flags=re.IGNORECASE)\<close>. Under
  \<^verbatim>\<open>IGNORECASE\<close> the letter k also matches U+212A and the letter i also matches U+0130 and
  U+0131.
\<close>

definition media_ext_match :: "pystr \<Rightarrow> bool" where
  "media_ext_match x =
     (case x of
        [d, a, b, c] \<Rightarrow>
          d = 46 \<and>
          ((a \<in> {77, 109} \<and> b \<in> {80, 112} \<and> c = 52) \<or>
           (a \<in> {77, 109} \<and> b \<in> {75, 107, 8490} \<and> c \<in> {86, 118}) \<or>
           (a \<in> {65, 97} \<and> b \<in> {86, 118} \<and> c \<in> {73, 105, 304, 305}))
      | _ \<Rightarrow> False)"

definition strip_media_ext :: "pystr \<Rightarrow> pystr" where
  "strip_media_ext s =
     (let n = length s in
      if media_ext_match (drop (n - 4) s) then take (n - 4) s
      else if s \<noteq> [] \<and> last s = 10 \<and> media_ext_match (drop (n - 5) (butlast s))
        then take (n - 5) s @ [10]
      else s)"

text \<open>\<^verbatim>\<open>re.sub(r'%[0-9A-Fa-f]{2}', ' ', s)\<close>\<close>

fun pct_to_space :: "pystr \<Rightarrow> pystr" where
  "pct_to_space (c # h1 # h2 # r) =
     (if c = 37 \<and> is_hex h1 \<and> is_hex h2 then 32 # pct_to_space r
      else c # pct_to_space (h1 # h2 # r))"
| "pct_to_space (c # cs) = c # pct_to_space cs"
| "pct_to_space [] = []"

text \<open>
  \<^verbatim>\<open>re.sub(r'[._-]+', ' ', s)\<close> and \<^verbatim>\<open>re.sub(r'\s+', ' ', s)\<close>: every maximal run of
  characters of the class becomes one space. \<open>in_run\<close> says that the character before was
  of the class.
\<close>

fun collapse :: "(nat \<Rightarrow> bool) \<Rightarrow> bool \<Rightarrow> pystr \<Rightarrow> pystr" where
  "collapse P in_run [] = []"
| "collapse P in_run (c # cs) =
     (if P c then (if in_run then collapse P True cs else 32 # collapse P True cs)
      else c # collapse P False cs)"

definition is_sep :: "nat \<Rightarrow> bool" where
  "is_sep c = (c = 46 \<or> c = 95 \<or> c = 45)"

section \<open>real\_debrid\_processor.py: filtering and names\<close>

text \<open>The settings of \<^verbatim>\<open>__init__\<close>.\<close>

definition min_video_size_mb :: real where
  "min_video_size_mb = 300"

definition allowed_video_extensions :: "pystr set" where
  "allowed_video_extensions =
     set (map py [''.mkv'', ''.mp4'', ''.avi'', ''.mov'', ''.wmv'', ''.m4v'', ''.webm'', ''.flv''])"

definition allowed_subtitle_extensions :: "pystr set" where
  "allowed_subtitle_extensions =
     set (map py [''.srt'', ''.ass'', ''.vtt'', ''.sub'', ''.idx'', ''.ssa'', ''.smi''])"

text \<open>The dictionary \<^verbatim>\<open>should_process_file\<close> returns, without its \<^verbatim>\<open>reason\<close>, a text for
  the log that no decision reads.\<close>

record filter_result =
  should_process :: bool
  category :: pystr

text \<open>\<^verbatim>\<open>file_ext = Path(filename).suffix.lower()\<close>\<close>

definition file_ext :: "pylib \<Rightarrow> pystr \<Rightarrow> pystr" where
  "file_ext L filename = str_lower L (path_suffix filename)"

text \<open>
  \<^verbatim>\<open>filesize_mb = filesize / (1024 * 1024) if filesize > 0 else 0\<close>. The quotient is a
  float in the source; the model keeps its exact value. The comparison with 300 is the same
  for both: the division by \<open>2 ^ 20\<close> is exact for every size below \<open>2 ^ 53\<close>, and beyond
  that rounding is monotone and 300 is a float.
\<close>

definition filesize_mb :: "int \<Rightarrow> real" where
  "filesize_mb fsize = (if fsize > 0 then real_of_int fsize / (1024 * 1024) else 0)"

text \<open>The variable \<^verbatim>\<open>is_video\<close>.\<close>

definition is_video :: "pylib \<Rightarrow> pystr \<Rightarrow> pystr \<Rightarrow> bool" where
  "is_video L filename mime_type =
     (if file_ext L filename \<in> allowed_video_extensions then True
      else if mime_type \<noteq> [] \<and>
              (contains_str (py ''video/'') (str_lower L mime_type) \<or>
               contains_str (py ''matroska'') (str_lower L mime_type)) then True
      else False)"

definition should_process_file :: "pylib \<Rightarrow> pystr \<Rightarrow> int \<Rightarrow> pystr \<Rightarrow> filter_result" where
  "should_process_file L filename fsize mime_type =
     (if filename = [] then \<lparr>should_process = False, category = py ''unknown''\<rparr>
      else if file_ext L filename \<in> allowed_subtitle_extensions then
        \<lparr>should_process = True, category = py ''subtitle''\<rparr>
      else if is_video L filename mime_type then
        (if filesize_mb fsize \<ge> min_video_size_mb then
           \<lparr>should_process = True, category = py ''video''\<rparr>
         else \<lparr>should_process = False, category = py ''video_small''\<rparr>)
      else \<lparr>should_process = False, category = py ''other''\<rparr>)"

definition sanitize_folder_name :: "pylib \<Rightarrow> pystr \<Rightarrow> pystr" where
  "sanitize_folder_name L name =
     (if name = [] then py ''Unknown''
      else
        (let name1 =
               (if str_lower L (path_suffix name) \<in>
                     allowed_video_extensions \<union> allowed_subtitle_extensions
                then path_stem name else name);
             clean_name = strip (sub_trailing_dots (remove_ctrl (replace_illegal name1)))
         in if clean_name = [] then py ''Unknown'' else clean_name))"

text \<open>The loop \<^verbatim>\<open>for _ in range(3)\<close> around \<^verbatim>\<open>unquote\<close>, left when a pass changes
  nothing.\<close>

fun unquote_passes :: "nat \<Rightarrow> pystr \<Rightarrow> pystr" where
  "unquote_passes 0 s = s"
| "unquote_passes (Suc n) s = (let temp = unquote s in if temp = s then s else unquote_passes n temp)"

text \<open>The loop over \<^verbatim>\<open>words\<close> that builds \<^verbatim>\<open>truncated\<close>, left at the first word that does
  not fit.\<close>

fun build_truncated :: "pystr \<Rightarrow> pystr list \<Rightarrow> pystr" where
  "build_truncated truncated [] = truncated"
| "build_truncated truncated (word # ws) =
     (if length (truncated @ [32] @ word) \<le> 95 then
        build_truncated (if truncated \<noteq> [] then truncated @ [32] @ word else word) ws
      else truncated)"

definition truncate_name :: "pystr \<Rightarrow> pystr" where
  "truncate_name s =
     (if length s > 100 then
        (let truncated = build_truncated [] (split_ws s) in
         if truncated \<noteq> [] then truncated else take 95 s)
      else s)"

text \<open>\<^verbatim>\<open>clean_name\<close> as it reaches the test \<^verbatim>\<open>if not clean_name or len(clean_name) < 3\<close>.\<close>

definition clean_name :: "pylib \<Rightarrow> pystr \<Rightarrow> pystr" where
  "clean_name L name =
     strip (truncate_name (sub_trailing_dots (strip (collapse is_space False (collapse is_sep False
       (remove_ctrl (replace_illegal (pct_to_space (strip_media_ext (strip_site_prefix L
         (strip_ext (unquote_passes 3 name))))))))))))"

text \<open>\<^verbatim>\<open>re.sub(r'[^\w\s-]', '', name)[:50]\<close>\<close>

definition fallback_name :: "pylib \<Rightarrow> pystr \<Rightarrow> pystr" where
  "fallback_name L name = take 50 (filter (\<lambda>c. re_word L c \<or> is_space c \<or> c = 45) name)"

definition sanitize_filename :: "pylib \<Rightarrow> pystr \<Rightarrow> pystr" where
  "sanitize_filename L name =
     (if name = [] then py ''unknown''
      else
        (let c = clean_name L name in
         if c = [] \<or> length c < 3 then
           (if strip (fallback_name L name) \<noteq> [] then strip (fallback_name L name)
            else py ''media_file'')
         else c))"

section \<open>Notions for the properties of names\<close>

text \<open>A percent escape \<^verbatim>\<open>%XX\<close> somewhere in the string.\<close>

fun has_escape :: "pystr \<Rightarrow> bool" where
  "has_escape (c # h1 # h2 # r) = ((c = 37 \<and> is_hex h1 \<and> is_hex h2) \<or> has_escape (h1 # h2 # r))"
| "has_escape (c # cs) = False"
| "has_escape [] = False"

text \<open>A character that none of the substitutions of \<^verbatim>\<open>sanitize_filename\<close> touches, the
  space among them.\<close>

definition plain :: "nat \<Rightarrow> bool" where
  "plain c = (\<not> is_illegal c \<and> \<not> is_ctrl c \<and> \<not> is_sep c)"

text \<open>Every whitespace character of the string is a space, and no two spaces are adjacent;
  with \<open>after_space\<close> the string does not start with a space either.\<close>

fun ok_ws :: "bool \<Rightarrow> pystr \<Rightarrow> bool" where
  "ok_ws after_space [] = True"
| "ok_ws after_space (c # cs) =
     (if is_space c then c = 32 \<and> \<not> after_space \<and> ok_ws True cs else ok_ws False cs)"

text \<open>A clean name: plain characters, words separated by single spaces, at most 100
  characters.\<close>

definition tidy :: "pystr \<Rightarrow> bool" where
  "tidy z =
     ((\<forall>c \<in> set z. plain c) \<and> ok_ws False z \<and>
      (z \<noteq> [] \<longrightarrow> \<not> is_space (hd z) \<and> \<not> is_space (last z)) \<and> length z \<le> 100)"

section \<open>Files\<close>

text \<open>
  A JSON or text file of the output directory: missing, present but not loadable (with the
  text of the exception), or present with its content.
\<close>

datatype 'a stored = Absent | Unreadable pystr | Stored 'a

record out_dir =
  torrents_file :: "torrent list stored"
  unrestricted_file :: "outcome list stored"
  links_file :: "pystr list stored"

text \<open>
  The pointer files under \<^verbatim>\<open>media_dir/unorganized\<close>: a file is named by its folder and its
  file name, and either holds a text or cannot be read as one. \<open>can_write\<close> says for which
  paths \<^verbatim>\<open>write_text\<close> succeeds. Directories are taken to be creatable.
\<close>

type_synonym path = "pystr \<times> pystr"

datatype node = Text pystr | Undecodable

record media =
  files :: "(path \<times> node) list"
  can_write :: "path \<Rightarrow> bool"

section \<open>real\_debrid\_api\_client.py: one pass over the API\<close>

definition rd_prefix :: pystr where
  "rd_prefix = py ''https://real-debrid.com/d/''"

text \<open>\<^verbatim>\<open>s.startswith(p)\<close>\<close>

definition startswith :: "pystr \<Rightarrow> pystr \<Rightarrow> bool" where
  "startswith s p = (take (length p) s = p)"

definition is_downloaded :: "torrent \<Rightarrow> bool" where
  "is_downloaded t = (tstatus t = Some (py ''downloaded''))"

text \<open>
  Step 2 of \<^verbatim>\<open>process_torrents_with_grouping\<close>: the loop over the torrents and the loop
  over the links of each, appending to \<^verbatim>\<open>all_links\<close>.
\<close>

definition collect_links :: "torrent list \<Rightarrow> pystr list" where
  "collect_links torrents =
     foldl (\<lambda>all_links t.
        if is_downloaded t \<and> tlinks t \<noteq> [] then
          foldl (\<lambda>acc link. if startswith link rd_prefix then acc @ [link] else acc)
            all_links (tlinks t)
        else all_links)
       [] torrents"

text \<open>The network as one pass sees it: the replies to the page requests and, for the
  \<open>i\<close>-th link to resolve, the replies to its POSTs.\<close>

record network =
  pages :: "nat \<Rightarrow> page_reply"
  replies :: "nat \<Rightarrow> nat \<Rightarrow> reply"

text \<open>The part of the summary that is counted from the data; the execution time is left
  out.\<close>

record api_summary =
  total_torrents :: nat
  downloaded_torrents :: nat
  total_links :: nat
  successful :: nat
  failed :: nat
  rate_limit_errors :: nat
  server_unavailable :: nat
  other_errors :: nat

datatype api_result = Api_failure pystr | Api_success api_summary

text \<open>\<^verbatim>\<open>result.get('result', {}).get('download')\<close> when it is true.\<close>

definition valid_link :: "outcome \<Rightarrow> pystr list" where
  "valid_link r =
     (case result_of r of
        Some u \<Rightarrow> (case u_download u of Some d \<Rightarrow> (if d \<noteq> [] then [d] else []) | None \<Rightarrow> [])
      | None \<Rightarrow> [])"

definition summarize :: "torrent list \<Rightarrow> pystr list \<Rightarrow> outcome list \<Rightarrow> api_summary" where
  "summarize torrents all_links all_results =
     (let failed_unrestricts = filter (\<lambda>r. error_of r \<noteq> None) all_results;
          rate = filter (\<lambda>r. error_of r = Some (py ''rate_limit_exceeded'')) failed_unrestricts;
          server = filter (\<lambda>r. error_of r = Some (py ''server_unavailable'')) failed_unrestricts
      in \<lparr>total_torrents = length torrents,
          downloaded_torrents = length (filter is_downloaded torrents),
          total_links = length all_links,
          successful = length (filter (\<lambda>r. result_of r \<noteq> None) all_results),
          failed = length failed_unrestricts,
          rate_limit_errors = length rate,
          server_unavailable = length server,
          other_errors =
            length (filter (\<lambda>r. r \<notin> set rate \<and> r \<notin> set server) failed_unrestricts)\<rparr>)"

text \<open>
  \<^verbatim>\<open>process_torrents_with_grouping\<close>: the result, the output directory as the pass
  leaves it, and the events of the link resolution. Writing the files of the output
  directory is taken to succeed.
\<close>

definition process_torrents_with_grouping ::
  "client \<Rightarrow> network \<Rightarrow> out_dir \<Rightarrow> api_result \<times> out_dir \<times> event list"
where
  "process_torrents_with_grouping c net out =
     (let torrents = fst (fetch_torrents (pages net)) in
      if torrents = [] then (Api_failure (py ''No torrents found''), out, [])
      else
        (let out1 = out\<lparr>torrents_file := Stored torrents\<rparr>;
             all_links = collect_links torrents;
             existing_results =
               (case unrestricted_file out of Stored rs \<Rightarrow> rs | _ \<Rightarrow> []);
             existing_links = set (map link_of existing_results);
             new_links = filter (\<lambda>link. link \<notin> existing_links) all_links;
             (new_results, evs) =
               (if new_links \<noteq> [] then unrestrict_links_batch c (replies net) new_links
                else ([], []));
             all_results = (if new_links \<noteq> [] then existing_results @ new_results
                            else existing_results);
             out2 = out1\<lparr>unrestricted_file := Stored all_results,
                          links_file := Stored (concat (map valid_link all_results))\<rparr>
         in (Api_success (summarize torrents all_links all_results), out2, evs)))"

section \<open>real\_debrid\_processor.py: grouping and pointer files\<close>

record file_info =
  original_link :: pystr
  download_url :: pystr
  fi_filename :: pystr
  fi_filesize :: int
  fi_mime_type :: pystr
  fi_category :: pystr
  sanitized_name :: pystr

record group =
  torrent_name :: pystr
  folder_name :: pystr
  group_files :: "file_info list"

text \<open>\<^verbatim>\<open>{t['id']: t for t in torrents if t.get('status') == 'downloaded'}\<close>: a dictionary
  keeps the place of the first entry of a key and the value of the last.\<close>

definition torrent_map :: "torrent list \<Rightarrow> (pystr \<times> torrent) list" where
  "torrent_map torrents =
     foldl (\<lambda>m t. AList.update (tid t) t m) [] (filter is_downloaded torrents)"

text \<open>\<^verbatim>\<open>{r['link']: r.get('result', {}) for r in unrestricted_data if 'result' in r}\<close>\<close>

definition link_to_unrestricted :: "outcome list \<Rightarrow> (pystr \<times> unrestricted) list" where
  "link_to_unrestricted unrestricted_data =
     foldl (\<lambda>m r. case result_of r of Some u \<Rightarrow> AList.update (link_of r) u m | None \<Rightarrow> m)
       [] unrestricted_data"

text \<open>The body of the loop over the links of a torrent: \<open>fs\<close> is the list \<^verbatim>\<open>files\<close>. The
  counters of \<^verbatim>\<open>filtering_stats\<close> are only logged and are left out.\<close>

definition add_link ::
  "pylib \<Rightarrow> (pystr \<times> unrestricted) list \<Rightarrow> bool \<Rightarrow> pystr set \<Rightarrow> file_info list \<Rightarrow> pystr
    \<Rightarrow> file_info list"
where
  "add_link L l2u skip_existing existing_urls fs link =
     (case map_of l2u link of
        None \<Rightarrow> fs
      | Some u \<Rightarrow>
         (case (u_download u, u_filename u) of
            (Some url, Some fname) \<Rightarrow>
              if url \<noteq> [] \<and> fname \<noteq> [] then
                (if skip_existing \<and> url \<in> existing_urls then fs
                 else
                   (let fsize = (case u_filesize u of Some n \<Rightarrow> n | None \<Rightarrow> 0);
                        mime = (case u_mimeType u of Some m \<Rightarrow> m | None \<Rightarrow> []);
                        filter_result = should_process_file L fname fsize mime
                    in if should_process filter_result then
                         fs @ [\<lparr>original_link = link, download_url = url, fi_filename = fname,
                                 fi_filesize = fsize, fi_mime_type = mime,
                                 fi_category = category filter_result,
                                 sanitized_name = sanitize_filename L fname\<rparr>]
                       else fs))
              else fs
          | _ \<Rightarrow> fs))"

definition create_torrent_groups_with_skip ::
  "pylib \<Rightarrow> torrent list \<Rightarrow> outcome list \<Rightarrow> bool \<Rightarrow> pystr set \<Rightarrow> (pystr \<times> group) list"
where
  "create_torrent_groups_with_skip L torrents unrestricted_data skip_existing existing_urls =
     (let l2u = link_to_unrestricted unrestricted_data in
      foldl (\<lambda>groups (torrent_id, t).
         (let name = (case tname t of Some n \<Rightarrow> n | None \<Rightarrow> py ''torrent_'' @ torrent_id);
              fs = foldl (add_link L l2u skip_existing existing_urls) [] (tlinks t)
          in if fs \<noteq> [] then
               AList.update torrent_id
                 \<lparr>torrent_name = name, folder_name = sanitize_folder_name L name,
                  group_files = fs\<rparr> groups
             else groups))
        [] (torrent_map torrents))"

text \<open>The state of \<^verbatim>\<open>_create_grouped_strm_files\<close>: the tree and the two counters.\<close>

record strm_state =
  tree :: media
  created_count :: nat
  skipped_count :: nat

definition strm_path :: "group \<Rightarrow> file_info \<Rightarrow> path" where
  "strm_path g f = (folder_name g, sanitized_name f @ py ''.strm'')"

text \<open>The body of the loop over the files of a group: the pointer file at \<open>p\<close> is to hold
  \<open>url\<close>. A file is taken to give back the text written to it: a URL with a carriage
  return, which \<^verbatim>\<open>read_text\<close> gives back as a line feed, or with a character that UTF-8
  cannot encode is not told apart.\<close>

definition write_strm :: "path \<Rightarrow> pystr \<Rightarrow> strm_state \<Rightarrow> strm_state" where
  "write_strm p url st =
     (let same = (case map_of (files (tree st)) p of
                    Some (Text existing) \<Rightarrow> strip existing = url
                  | Some Undecodable \<Rightarrow> False
                  | None \<Rightarrow> False)
      in if same then st\<lparr>skipped_count := skipped_count st + 1\<rparr>
         else if can_write (tree st) p then
           st\<lparr>tree := (tree st)\<lparr>files := AList.update p (Text url) (files (tree st))\<rparr>,
              created_count := created_count st + 1\<rparr>
         else st)"

definition create_grouped_strm_files :: "(pystr \<times> group) list \<Rightarrow> media \<Rightarrow> strm_state" where
  "create_grouped_strm_files torrent_groups m =
     foldl (\<lambda>st (torrent_id, g).
        foldl (\<lambda>st f. write_strm (strm_path g f) (download_url f) st) st (group_files g))
       \<lparr>tree = m, created_count = 0, skipped_count = 0\<rparr> torrent_groups"

record world =
  out :: out_dir
  media_tree :: media

record proc_summary =
  torrents_processed :: nat
  total_files :: nat
  strm_files_created :: nat
  strm_files_skipped :: nat
  folders_created :: nat

datatype proc_result = Proc_failure pystr | Proc_success proc_summary

text \<open>Steps 2 to 4 of \<^verbatim>\<open>process_from_api\<close>.\<close>

definition group_and_write ::
  "pylib \<Rightarrow> torrent list \<Rightarrow> outcome list \<Rightarrow> bool \<Rightarrow> pystr set \<Rightarrow> world \<Rightarrow> proc_result \<times> world"
where
  "group_and_write L torrents unrestricted_data skip_existing existing_urls w =
     (let torrent_groups =
            create_torrent_groups_with_skip L torrents unrestricted_data skip_existing existing_urls;
          st = create_grouped_strm_files torrent_groups (media_tree w)
      in (Proc_success
            \<lparr>torrents_processed = length torrent_groups,
             total_files = sum_list (map (\<lambda>(i, g). length (group_files g)) torrent_groups),
             strm_files_created = created_count st,
             strm_files_skipped = skipped_count st,
             folders_created = length (filter (\<lambda>(i, g). group_files g \<noteq> []) torrent_groups)\<rparr>,
          w\<lparr>media_tree := tree st\<rparr>))"

text \<open>
  \<^verbatim>\<open>run_real_debrid_sync\<close>: it takes the event loop of the calling thread and calls
  \<^verbatim>\<open>loop.run_until_complete\<close> on it. When that loop is already running, as it is for
  every caller that is itself a coroutine, \<^verbatim>\<open>run_until_complete\<close> raises
  \<^verbatim>\<open>RuntimeError\<close> before the coroutine starts (\<open>Inl\<close>, with the text of the
  exception); otherwise it runs \<^verbatim>\<open>process_torrents_with_grouping\<close> with a client of its
  own to the end and returns its result.
\<close>

definition run_real_debrid_sync ::
  "bool \<Rightarrow> client \<Rightarrow> network \<Rightarrow> out_dir \<Rightarrow> pystr + api_result \<times> out_dir \<times> event list"
where
  "run_real_debrid_sync loop_running c net od =
     (if loop_running then Inl (py ''This event loop is already running'')
      else Inr (process_torrents_with_grouping c net od))"

text \<open>
  \<^verbatim>\<open>process_from_api\<close>. \<open>loop_running\<close> says whether the caller runs inside an event
  loop. Every exception raised in the \<^verbatim>\<open>try\<close> block, that of \<^verbatim>\<open>json.load\<close> and that
  of \<^verbatim>\<open>run_real_debrid_sync\<close> among them, ends in the \<^verbatim>\<open>except\<close> clause, which
  returns the failure with the text of the exception.
\<close>

definition process_from_api ::
  "pylib \<Rightarrow> pystr \<Rightarrow> bool \<Rightarrow> client \<Rightarrow> network \<Rightarrow> world \<Rightarrow> bool \<Rightarrow> pystr set \<Rightarrow> bool
    \<Rightarrow> proc_result \<times> world \<times> event list"
where
  "process_from_api L api_key loop_running c net w skip_existing existing_urls cycle_mode =
     (if api_key = [] then (Proc_failure (py ''No API key provided''), w, [])
      else if \<not> cycle_mode \<and> torrents_file (out w) \<noteq> Absent \<and> unrestricted_file (out w) \<noteq> Absent
      then
        (case (torrents_file (out w), unrestricted_file (out w)) of
           (Stored torrents, Stored unrestricted_data) \<Rightarrow>
             (let (r, w1) = group_and_write L torrents unrestricted_data skip_existing
                   existing_urls w
              in (r, w1, []))
         | (Unreadable e, _) \<Rightarrow> (Proc_failure e, w, [])
         | (_, Unreadable e) \<Rightarrow> (Proc_failure e, w, [])
         | _ \<Rightarrow> (Proc_failure [], w, []))
      else
        (case run_real_debrid_sync loop_running c net (out w) of
           Inl e \<Rightarrow> (Proc_failure e, w, [])
         | Inr (Api_failure e, out1, evs) \<Rightarrow> (Proc_failure e, w\<lparr>out := out1\<rparr>, evs)
         | Inr (Api_success s, out1, evs) \<Rightarrow>
            (case (torrents_file out1, unrestricted_file out1) of
               (Stored torrents, Stored unrestricted_data) \<Rightarrow>
                 (let (r, w1) = group_and_write L torrents unrestricted_data skip_existing
                       existing_urls (w\<lparr>out := out1\<rparr>)
                  in (r, w1, evs))
             | (Unreadable e, _) \<Rightarrow> (Proc_failure e, w\<lparr>out := out1\<rparr>, evs)
             | (_, Unreadable e) \<Rightarrow> (Proc_failure e, w\<lparr>out := out1\<rparr>, evs)
             | _ \<Rightarrow> (Proc_failure [], w\<lparr>out := out1\<rparr>, evs))))"

text \<open>The outcomes recorded in \<^verbatim>\<open>realdebrid_unrestricted.json\<close>, none when the file is
  missing or cannot be loaded.\<close>

definition recorded :: "out_dir \<Rightarrow> outcome list" where
  "recorded od = (case unrestricted_file od of Stored rs \<Rightarrow> rs | _ \<Rightarrow> [])"

section \<open>cycle\_manager.py: the retry queue and one cycle\<close>

text \<open>An item of \<^verbatim>\<open>retry_queue.json\<close>, with its keys \<^verbatim>\<open>link\<close>, \<^verbatim>\<open>torrent_info\<close>,
  \<^verbatim>\<open>added_at\<close> and \<^verbatim>\<open>retry_count\<close>, all present, as \<^verbatim>\<open>_add_to_retry_queue\<close>
  writes them.\<close>

record retry_item =
  ri_link :: pystr
  ri_torrent_info :: torrent
  ri_added_at :: pystr
  ri_retry_count :: nat

text \<open>
  The cycle manager: \<^verbatim>\<open>self.retry_queue\<close>, the file \<^verbatim>\<open>retry_queue.json\<close>, whether that
  file can be opened for writing, and the output directory and pointer files.
  \<^verbatim>\<open>self.file_tracking\<close> and its file, which nothing that concerns the queue reads, are
  left out.
\<close>

record manager =
  retry_queue :: "retry_item list"
  retry_queue_file :: "retry_item list stored"
  retry_queue_writable :: bool
  disk :: world



text \<open>\<^verbatim>\<open>_save_retry_queue\<close>: an exception of \<^verbatim>\<open>open\<close> is caught and logged, and the file
  is as before.\<close>

definition save_retry_queue :: "manager \<Rightarrow> manager" where
  "save_retry_queue m =
     (if retry_queue_writable m then m\<lparr>retry_queue_file := Stored (retry_queue m)\<rparr> else m)"

text \<open>\<^verbatim>\<open>_add_to_retry_queue\<close>; \<open>now\<close> is \<^verbatim>\<open>datetime.now().isoformat()\<close>. No function of
  the repository calls it.\<close>

definition add_to_retry_queue :: "pystr \<Rightarrow> torrent \<Rightarrow> pystr \<Rightarrow> manager \<Rightarrow> manager" where
  "add_to_retry_queue link torrent_info now m =
     save_retry_queue
       (m\<lparr>retry_queue := retry_queue m @
            [\<lparr>ri_link = link, ri_torrent_info = torrent_info, ri_added_at = now,
              ri_retry_count = 0\<rparr>]\<rparr>)"







section \<open>Concrete inputs\<close>

definition c0 :: client where
  "c0 = \<lparr>retry_503_attempts = 2, retry_429_attempts = 3\<rparr>"

definition link_A :: pystr where
  "link_A = py ''https://real-debrid.com/d/AAAA''"

text \<open>Services that answer every POST with 503, every POST with 429, and the mixed sequence
  429, 503, 503, 429, 503, 503, ...\<close>

definition srv_503 :: "nat \<Rightarrow> reply" where
  "srv_503 n = Response 503 (Raises []) (Returns (py ''Service Unavailable''))"

definition srv_429 :: "nat \<Rightarrow> reply" where
  "srv_429 n = Response 429 (Raises []) (Returns (py ''Too Many Requests''))"

definition srv_mixed :: "nat \<Rightarrow> reply" where
  "srv_mixed n = (if n = 0 \<or> n = 3 then srv_429 n else srv_503 n)"

definition t1 :: torrent where
  "t1 = \<lparr>tid = py ''T1'', tname = Some (py ''Movie''), tstatus = Some (py ''downloaded''),
          tlinks = [py ''https://real-debrid.com/d/L1'', py ''https://real-debrid.com/d/L2'']\<rparr>"

text \<open>A catalog whose pages 1 and 2 hold 100 torrents and whose page 3 holds one; and a
  service that answers the first page with status 500.\<close>

definition srv_three_pages :: "nat \<Rightarrow> page_reply" where
  "srv_three_pages p =
     (if p = 3 then Page 200 (Returns [t1]) (Returns [])
      else Page 200 (Returns (replicate 100 t1)) (Returns []))"

definition srv_500 :: "nat \<Rightarrow> page_reply" where
  "srv_500 p = Page 500 (Raises []) (Returns (py ''Internal Server Error''))"

text \<open>Two links of torrent \<open>t1\<close> and two more, and what the service gives for a video and for
  its subtitle.\<close>

definition link_1 :: pystr where
  "link_1 = py ''https://real-debrid.com/d/L1''"

definition link_2 :: pystr where
  "link_2 = py ''https://real-debrid.com/d/L2''"

definition link_3 :: pystr where
  "link_3 = py ''https://real-debrid.com/d/L3''"

definition link_4 :: pystr where
  "link_4 = py ''https://real-debrid.com/d/L4''"

definition u_mkv :: unrestricted where
  "u_mkv = \<lparr>u_download = Some (py ''https://dl.example/d/L1/Movie.mkv''),
            u_filename = Some (py ''Movie.mkv''), u_filesize = Some 524288000,
            u_mimeType = Some (py ''video/x-matroska'')\<rparr>"

definition u_srt :: unrestricted where
  "u_srt = \<lparr>u_download = Some (py ''https://dl.example/d/L2/Movie.srt''),
            u_filename = Some (py ''Movie.srt''), u_filesize = Some 40000,
            u_mimeType = Some (py ''application/x-subrip'')\<rparr>"

text \<open>A service that answers the task of the second link with 503 every time and every other
  task with 200.\<close>

definition srv_second_fails :: "nat \<Rightarrow> nat \<Rightarrow> reply" where
  "srv_second_fails i n =
     (if i = 1 then srv_503 n else Response 200 (Returns u_mkv) (Returns []))"

text \<open>Three passes: the first and the third cycle raise, the second returns.\<close>

definition three_passes :: "iteration list" where
  "three_passes =
     [\<lparr>cycle_raises = Some (Exception (py ''TypeError'')),
        sleep_interrupted = None\<rparr>,
      \<lparr>cycle_raises = None, sleep_interrupted = None\<rparr>,
      \<lparr>cycle_raises = Some (Exception (py ''OSError'')),
        sleep_interrupted = None\<rparr>]"

text \<open>
  Tables that agree with CPython on every code point below 128: the lower case of the ASCII
  letters, and the ASCII members of \<^verbatim>\<open>\w\<close> and \<^verbatim>\<open>\d\<close>. The inputs evaluated with them
  below are ASCII.
\<close>

definition ascii_tables :: pylib where
  "ascii_tables =
     \<lparr>str_lower = map (\<lambda>c. if 65 \<le> c \<and> c \<le> 90 then c + 32 else c),
      re_word = (\<lambda>c. (48 \<le> c \<and> c \<le> 57) \<or> (65 \<le> c \<and> c \<le> 90) \<or> c = 95 \<or> (97 \<le> c \<and> c \<le> 122)),
      re_digit = (\<lambda>c. 48 \<le> c \<and> c \<le> 57)\<rparr>"

text \<open>File names: one whose cleaned form is too short, so that the name falls back to the
  original; one with a doubly encoded percent sign; and their results.\<close>

definition name_short :: pystr where
  "name_short = py ''a-.mkv''"

definition name_encoded :: pystr where
  "name_encoded = py ''%25%0041abc''"

definition net_500 :: network where
  "net_500 = \<lparr>pages = srv_500, replies = (\<lambda>i. srv_503)\<rparr>"

definition empty_world :: world where
  "empty_world =
     \<lparr>out = \<lparr>torrents_file = Absent, unrestricted_file = Absent, links_file = Absent\<rparr>,
      media_tree = \<lparr>files = [], can_write = (\<lambda>p. True)\<rparr>\<rparr>"

text \<open>A downloaded torrent with a link of the service and a link of another host, and a
  catalog of one page that holds it.\<close>

definition link_other :: pystr where
  "link_other = py ''https://example.org/d/L9''"

definition t_mixed :: torrent where
  "t_mixed = \<lparr>tid = py ''T2'', tname = Some (py ''Movie''), tstatus = Some (py ''downloaded''),
               tlinks = [link_other, link_1]\<rparr>"

definition net_mixed :: network where
  "net_mixed =
     \<lparr>pages = (\<lambda>p. Page 200 (Returns [t_mixed]) (Returns [])),
      replies = (\<lambda>i n. Response 200 (Returns u_mkv) (Returns []))\<rparr>"

text \<open>The recorded outcomes of the two links of the torrent \<open>t1\<close>: a film of 500 MB and
  its subtitle file, which have the same name up to the extension.\<close>

definition outcomes_movie :: "outcome list" where
  "outcomes_movie = [Success link_1 u_mkv, Success link_2 u_srt]"

definition groups_movie :: "(pystr \<times> group) list" where
  "groups_movie =
     [(py ''T1'',
       \<lparr>torrent_name = py ''Movie'', folder_name = py ''Movie'',
        group_files =
          [\<lparr>original_link = link_1, download_url = py ''https://dl.example/d/L1/Movie.mkv'',
            fi_filename = py ''Movie.mkv'', fi_filesize = 524288000,
            fi_mime_type = py ''video/x-matroska'', fi_category = py ''video'',
            sanitized_name = py ''Movie''\<rparr>,
           \<lparr>original_link = link_2, download_url = py ''https://dl.example/d/L2/Movie.srt'',
            fi_filename = py ''Movie.srt'', fi_filesize = 40000,
            fi_mime_type = py ''application/x-subrip'', fi_category = py ''subtitle'',
            sanitized_name = py ''Movie''\<rparr>]\<rparr>)]"

text \<open>The tree of pointer files that a first pass over \<open>groups_movie\<close> leaves in an empty
  directory.\<close>

definition tree_movie :: media where
  "tree_movie =
     \<lparr>files = [((py ''Movie'', py ''Movie.strm''), Text (py ''https://dl.example/d/L2/Movie.srt''))],
      can_write = (\<lambda>p. True)\<rparr>"




section \<open>Properties: retry classification\<close>

lemma has_status_cases:
  assumes "has_status st r"
  obtains js t where "r = Response st js (Returns t)"
  using assms by (cases "(st, r)" rule: has_status.cases) auto

text \<open>
  C1. For every link: three replies 503 with \<^verbatim>\<open>retry_503_attempts = 2\<close> give exactly three
  POSTs, a wait of 10 seconds before each retry, and the outcome \<^verbatim>\<open>retry_next_cycle\<close>; four
  replies 429 with \<^verbatim>\<open>retry_429_attempts = 3\<close> give exactly four POSTs and the outcome
  \<^verbatim>\<open>failed_rate_limit\<close>, the k-th retry coming after a wait of \<open>2 ^ k\<close> seconds. The
  two counters are separate: in the mixed sequence 429, 503, 503, 429, 503 the third 503 is the
  one that exhausts the 503 budget, whatever 429 replies came between.
\<close>

theorem unrestrict_link_retry_classification:
  "(retry_503_attempts c = 2 \<and> has_status 503 (srv 0) \<and> has_status 503 (srv 1) \<and>
      has_status 503 (srv 2) \<longrightarrow>
      unrestrict_link c srv link =
        (Retry_next_cycle link 3, [Post link, Sleep 10, Post link, Sleep 10, Post link]) \<and>
      status_of (fst (unrestrict_link c srv link)) = py ''retry_next_cycle'' \<and>
      attempts (snd (unrestrict_link c srv link)) = 3) \<and>
   (retry_429_attempts c = 3 \<and> has_status 429 (srv 0) \<and> has_status 429 (srv 1) \<and>
      has_status 429 (srv 2) \<and> has_status 429 (srv 3) \<longrightarrow>
      unrestrict_link c srv link =
        (Failed_rate_limit link,
         [Post link, Sleep (2 ^ 1), Post link, Sleep (2 ^ 2), Post link, Sleep (2 ^ 3), Post link]) \<and>
      status_of (fst (unrestrict_link c srv link)) = py ''failed_rate_limit'' \<and>
      attempts (snd (unrestrict_link c srv link)) = 4) \<and>
   (retry_503_attempts c = 2 \<and> retry_429_attempts c = 3 \<and> has_status 429 (srv 0) \<and>
      has_status 503 (srv 1) \<and> has_status 503 (srv 2) \<and> has_status 429 (srv 3) \<and>
      has_status 503 (srv 4) \<longrightarrow>
      unrestrict_link c srv link =
        (Retry_next_cycle link 3,
         [Post link, Sleep 2, Post link, Sleep 10, Post link, Sleep 10, Post link, Sleep 4,
          Post link]))"
proof (intro conjI impI)
  assume h: "retry_503_attempts c = 2 \<and> has_status 503 (srv 0) \<and> has_status 503 (srv 1) \<and>
      has_status 503 (srv 2)"
  then obtain j0 t0 j1 t1 j2 t2 where
    r: "srv 0 = Response 503 j0 (Returns t0)" "srv 1 = Response 503 j1 (Returns t1)"
       "srv 2 = Response 503 j2 (Returns t2)"
    by (metis has_status_cases)
  have s: "srv (Suc 0) = Response 503 j1 (Returns t1)"
    "srv (Suc (Suc 0)) = Response 503 j2 (Returns t2)"
    using r by (simp_all add: eval_nat_numeral)
  from h have c: "retry_503_attempts c = 2" by simp
  show u: "unrestrict_link c srv link =
        (Retry_next_cycle link 3, [Post link, Sleep 10, Post link, Sleep 10, Post link])"
    by (simp add: unrestrict_link_def r s c)
  show "status_of (fst (unrestrict_link c srv link)) = py ''retry_next_cycle''"
    by (simp add: u)
  show "attempts (snd (unrestrict_link c srv link)) = 3"
    by (simp add: u attempts_def)
next
  assume h: "retry_429_attempts c = 3 \<and> has_status 429 (srv 0) \<and> has_status 429 (srv 1) \<and>
      has_status 429 (srv 2) \<and> has_status 429 (srv 3)"
  then obtain j0 t0 j1 t1 j2 t2 j3 t3 where
    r: "srv 0 = Response 429 j0 (Returns t0)" "srv 1 = Response 429 j1 (Returns t1)"
       "srv 2 = Response 429 j2 (Returns t2)" "srv 3 = Response 429 j3 (Returns t3)"
    by (metis has_status_cases)
  have s: "srv (Suc 0) = Response 429 j1 (Returns t1)"
    "srv (Suc (Suc 0)) = Response 429 j2 (Returns t2)"
    "srv (Suc (Suc (Suc 0))) = Response 429 j3 (Returns t3)"
    using r by (simp_all add: eval_nat_numeral)
  from h have c: "retry_429_attempts c = 3" by simp
  show u: "unrestrict_link c srv link =
        (Failed_rate_limit link,
         [Post link, Sleep (2 ^ 1), Post link, Sleep (2 ^ 2), Post link, Sleep (2 ^ 3), Post link])"
    by (simp add: unrestrict_link_def r s c)
  show "status_of (fst (unrestrict_link c srv link)) = py ''failed_rate_limit''"
    by (simp add: u)
  show "attempts (snd (unrestrict_link c srv link)) = 4"
    by (simp add: u attempts_def)
next
  assume h: "retry_503_attempts c = 2 \<and> retry_429_attempts c = 3 \<and> has_status 429 (srv 0) \<and>
      has_status 503 (srv 1) \<and> has_status 503 (srv 2) \<and> has_status 429 (srv 3) \<and>
      has_status 503 (srv 4)"
  then obtain j0 t0 j1 t1 j2 t2 j3 t3 j4 t4 where
    r: "srv 0 = Response 429 j0 (Returns t0)" "srv 1 = Response 503 j1 (Returns t1)"
       "srv 2 = Response 503 j2 (Returns t2)" "srv 3 = Response 429 j3 (Returns t3)"
       "srv 4 = Response 503 j4 (Returns t4)"
    by (metis has_status_cases)
  have s: "srv (Suc 0) = Response 503 j1 (Returns t1)"
    "srv (Suc (Suc 0)) = Response 503 j2 (Returns t2)"
    "srv (Suc (Suc (Suc 0))) = Response 429 j3 (Returns t3)"
    "srv (Suc (Suc (Suc (Suc 0)))) = Response 503 j4 (Returns t4)"
    using r by (simp_all add: eval_nat_numeral)
  from h have c: "retry_503_attempts c = 2" "retry_429_attempts c = 3" by simp_all
  show "unrestrict_link c srv link =
        (Retry_next_cycle link 3,
         [Post link, Sleep 2, Post link, Sleep 10, Post link, Sleep 10, Post link, Sleep 4,
          Post link])"
    by (simp add: unrestrict_link_def r s c)
qed

theorem unrestrict_link_retry_classification_witness:
  "unrestrict_link c0 srv_503 link_A =
     (Retry_next_cycle link_A 3, [Post link_A, Sleep 10, Post link_A, Sleep 10, Post link_A]) \<and>
   attempts (snd (unrestrict_link c0 srv_503 link_A)) = 3 \<and>
   unrestrict_link c0 srv_429 link_A =
     (Failed_rate_limit link_A,
      [Post link_A, Sleep 2, Post link_A, Sleep 4, Post link_A, Sleep 8, Post link_A]) \<and>
   attempts (snd (unrestrict_link c0 srv_429 link_A)) = 4 \<and>
   unrestrict_link c0 srv_mixed link_A =
     (Retry_next_cycle link_A 3,
      [Post link_A, Sleep 2, Post link_A, Sleep 10, Post link_A, Sleep 10, Post link_A, Sleep 4,
       Post link_A])"
  using unrestrict_link_retry_classification [of c0 srv_503 link_A]
    unrestrict_link_retry_classification [of c0 srv_429 link_A]
    unrestrict_link_retry_classification [of c0 srv_mixed link_A]
  by (simp add: c0_def srv_503_def srv_429_def srv_mixed_def attempts_def)

section \<open>Properties: pagination\<close>

lemma fetch_loop_stop:
  assumes "\<not> full_page (srv p) \<or> p = 1000"
  shows "fetch_loop srv p acc reqs = (acc @ page_items (srv p), reqs @ [(p, page_limit)])"
proof (cases "srv p")
  case (Get_raises e)
  then show ?thesis by (simp add: Let_def)
next
  case (Page st js tx)
  show ?thesis
  proof (cases js)
    case (Raises e)
    with Page show ?thesis by (simp add: Let_def)
  next
    case (Returns d)
    with Page assms show ?thesis by (auto simp: Let_def)
  qed
qed

lemma fetch_loop_step:
  assumes "full_page (srv p)" "p < 1000"
  shows "fetch_loop srv p acc reqs =
    fetch_loop srv (Suc p) (acc @ page_items (srv p)) (reqs @ [(p, page_limit)])"
proof -
  from assms(1) obtain d tx where r: "srv p = Page 200 (Returns d) tx" "page_limit \<le> length d"
    by (cases "srv p" rule: full_page.cases) auto
  then have "d \<noteq> []" by (auto simp: page_limit_def)
  with r assms(2) show ?thesis
    by (subst fetch_loop.simps) (simp add: Let_def del: fetch_loop.simps)
qed

lemma fetch_loop_pages:
  assumes "p \<le> k" "k \<le> 1000" "\<forall>q. p \<le> q \<and> q < k \<longrightarrow> full_page (srv q)"
    "\<not> full_page (srv k) \<or> k = 1000"
  shows "fetch_loop srv p acc reqs =
    (acc @ concat (map (\<lambda>q. page_items (srv q)) [p..<Suc k]),
     reqs @ map (\<lambda>q. (q, page_limit)) [p..<Suc k])"
  using assms
proof (induction "k - p" arbitrary: p acc reqs)
  case 0
  then have "p = k" by simp
  with "0.prems"(4) show ?case
    using fetch_loop_stop [of srv k acc reqs] by simp
next
  case (Suc n)
  then have lt: "p < k" by simp
  with Suc.prems have f: "full_page (srv p)" "p < 1000" by auto
  have ih: "fetch_loop srv (Suc p) (acc @ page_items (srv p)) (reqs @ [(p, page_limit)]) =
    ((acc @ page_items (srv p)) @ concat (map (\<lambda>q. page_items (srv q)) [Suc p..<Suc k]),
     (reqs @ [(p, page_limit)]) @ map (\<lambda>q. (q, page_limit)) [Suc p..<Suc k])"
  proof (rule Suc.hyps(1))
    show "n = k - Suc p" using Suc.hyps(2) by simp
    show "Suc p \<le> k" using lt by simp
    show "k \<le> 1000" by (rule Suc.prems(2))
    show "\<forall>q. Suc p \<le> q \<and> q < k \<longrightarrow> full_page (srv q)" using Suc.prems(3) by simp
    show "\<not> full_page (srv k) \<or> k = 1000" by (rule Suc.prems(4))
  qed
  have up: "[p..<Suc k] = p # [Suc p..<Suc k]" using lt by (simp add: upt_conv_Cons)
  show ?case
    unfolding fetch_loop_step [of srv p acc reqs, OF f] ih up by simp
qed

lemma stop_page_exists:
  "\<exists>k::nat. 1 \<le> k \<and> k \<le> 1000 \<and> (\<forall>q. 1 \<le> q \<and> q < k \<longrightarrow> full_page (srv q)) \<and>
       (\<not> full_page (srv k) \<or> k = 1000)"
proof (cases "\<exists>k. 1 \<le> k \<and> k \<le> 1000 \<and> \<not> full_page (srv k)")
  case True
  define k where "k = (LEAST k. 1 \<le> k \<and> k \<le> 1000 \<and> \<not> full_page (srv k))"
  from True have a: "1 \<le> k \<and> k \<le> 1000 \<and> \<not> full_page (srv k)"
    unfolding k_def by (rule LeastI_ex)
  have "\<forall>q. 1 \<le> q \<and> q < k \<longrightarrow> full_page (srv q)"
  proof (intro allI impI)
    fix q assume q: "1 \<le> q \<and> q < k"
    show "full_page (srv q)"
    proof (rule ccontr)
      assume "\<not> full_page (srv q)"
      with q a have "1 \<le> q \<and> q \<le> 1000 \<and> \<not> full_page (srv q)" by simp
      then have "k \<le> q" unfolding k_def by (rule Least_le)
      with q show False by simp
    qed
  qed
  with a show ?thesis by blast
next
  case False
  then have "(\<forall>q. 1 \<le> q \<and> q < 1000 \<longrightarrow> full_page (srv q))" by auto
  then show ?thesis by (intro exI [of _ 1000]) simp
qed

text \<open>
  C6 (amended). The first request is for page 1, every request carries limit 100, and the
  pages requested are exactly 1..k, where k is the first page that is not a full page with
  status 200, or 1000 if there is none. A page is not full when it holds fewer than 100
  torrents (none, for one), when its status is 404 or any other status than 200, or when the
  request or the reading of its body raises. The result is the concatenation of the pages
  with status 200 among 1..k. In particular, when pages 1 and 2 are full and page 3 holds
  fewer than 100 torrents, the result is the concatenation of pages 1 to 3 and page 4 is not
  requested.
\<close>

theorem fetch_torrents_pagination:
  "(\<exists>k. 1 \<le> k \<and> k \<le> 1000 \<and> (\<forall>q. 1 \<le> q \<and> q < k \<longrightarrow> full_page (srv q)) \<and>
        (\<not> full_page (srv k) \<or> k = 1000) \<and>
        fetch_torrents srv =
          (concat (map (\<lambda>q. page_items (srv q)) [1..<Suc k]), map (\<lambda>q. (q, 100)) [1..<Suc k])) \<and>
   (srv 1 = Page 200 (Returns d1) x1 \<and> 100 \<le> length d1 \<and>
    srv 2 = Page 200 (Returns d2) x2 \<and> 100 \<le> length d2 \<and>
    srv 3 = Page 200 (Returns d3) x3 \<and> length d3 < 100 \<longrightarrow>
      fetch_torrents srv = (d1 @ d2 @ d3, [(1, 100), (2, 100), (3, 100)]))"
proof (intro conjI impI)
  obtain k where k: "1 \<le> k" "k \<le> 1000" "\<forall>q. 1 \<le> q \<and> q < k \<longrightarrow> full_page (srv q)"
    "\<not> full_page (srv k) \<or> k = 1000"
    using stop_page_exists [of srv] by blast
  have "fetch_torrents srv =
    (concat (map (\<lambda>q. page_items (srv q)) [1..<Suc k]), map (\<lambda>q. (q, 100)) [1..<Suc k])"
    using fetch_loop_pages [OF k, of "[]" "[]"] by (simp add: fetch_torrents_def page_limit_def)
  with k show "\<exists>k. 1 \<le> k \<and> k \<le> 1000 \<and> (\<forall>q. 1 \<le> q \<and> q < k \<longrightarrow> full_page (srv q)) \<and>
        (\<not> full_page (srv k) \<or> k = 1000) \<and>
        fetch_torrents srv =
          (concat (map (\<lambda>q. page_items (srv q)) [1..<Suc k]), map (\<lambda>q. (q, 100)) [1..<Suc k])"
    by blast
next
  assume h: "srv 1 = Page 200 (Returns d1) x1 \<and> 100 \<le> length d1 \<and>
    srv 2 = Page 200 (Returns d2) x2 \<and> 100 \<le> length d2 \<and>
    srv 3 = Page 200 (Returns d3) x3 \<and> length d3 < 100"
  have full: "\<forall>q. 1 \<le> q \<and> q < 3 \<longrightarrow> full_page (srv q)"
  proof (intro allI impI)
    fix q :: nat assume "1 \<le> q \<and> q < 3"
    then have "q = 1 \<or> q = 2" by auto
    with h show "full_page (srv q)" by (auto simp: page_limit_def)
  qed
  have stop: "\<not> full_page (srv 3) \<or> (3::nat) = 1000"
    using h by (simp add: page_limit_def)
  have up: "[1..<Suc 3] = [1, 2, 3]" by (simp add: upt_rec)
  show "fetch_torrents srv = (d1 @ d2 @ d3, [(1, 100), (2, 100), (3, 100)])"
    using fetch_loop_pages [of 1 3 srv "[]" "[]", OF _ _ full stop] h
    unfolding up by (simp add: fetch_torrents_def page_limit_def)
qed

theorem fetch_torrents_pagination_witness:
  "fetch_torrents srv_three_pages =
     (replicate 100 t1 @ replicate 100 t1 @ [t1], [(1, 100), (2, 100), (3, 100)])"
  using fetch_torrents_pagination [of srv_three_pages "replicate 100 t1" "Returns []"
      "replicate 100 t1" "Returns []" "[t1]" "Returns []"]
  by (simp add: srv_three_pages_def)

text \<open>
  The claim as stated lists four stopping conditions. A first page with status 500 stops the
  loop after one request although none of the four holds for it.
\<close>

theorem fetch_torrents_stops_on_error_status:
  "fetch_torrents srv_500 = ([], [(1, 100)]) \<and> \<not> listed_stop 1 (srv_500 1)"
  by (simp add: fetch_torrents_def srv_500_def page_limit_def Let_def)

section \<open>Properties: the batch orchestrator\<close>

declare batches.simps [simp del]

lemma concat_batches: "concat (batches xs) = xs"
proof (induction xs rule: batches.induct)
  case (1 xs)
  show ?case
  proof (cases "xs = []")
    case True
    then show ?thesis by (subst batches.simps) simp
  next
    case False
    with 1 show ?thesis by (subst batches.simps) simp
  qed
qed

lemma unrestrict_loop_link:
  "link_of (fst (unrestrict_loop c srv link n a429 a503 evs)) = link"
proof (induction c srv link n a429 a503 evs rule: unrestrict_loop.induct)
  case (1 c srv link n a429 a503 evs)
  show ?case
    using 1 by (subst unrestrict_loop.simps)
      (simp add: Let_def split: reply.splits awaited.splits del: unrestrict_loop.simps)
qed

lemma unrestrict_link_link: "link_of (fst (unrestrict_link c srv link)) = link"
  by (simp add: unrestrict_link_def unrestrict_loop_link del: unrestrict_loop.simps)

lemma process_batches_results:
  "fst (process_batches c srv k bs results evs) =
     results @ map (\<lambda>(i, link). fst (unrestrict_link c (srv i) link))
       (zip [k..<k + length (concat bs)] (concat bs))"
proof (induction bs arbitrary: k results evs)
  case Nil
  then show ?case by simp
next
  case (Cons b bs)
  have split: "[k..<k + (length b + length (concat bs))] =
      [k..<k + length b] @ [k + length b..<k + length b + length (concat bs)]"
    by (metis add.assoc le_add1 upt_add_eq_append)
  have filt: "concat (map (case_sum (\<lambda>a. []) (\<lambda>r. [r]) \<circ>
        (\<lambda>(i, link). Inr (fst (unrestrict_link c (srv i) link)))) zs) =
      map (\<lambda>(i, link). fst (unrestrict_link c (srv i) link)) zs" for zs :: "(nat \<times> pystr) list"
    by (induction zs) auto
  show ?case
    by (simp add: gather_def Cons.IH split filt zip_append)
qed

text \<open>
  C7. For every list of links the batch orchestrator returns exactly one outcome per link, in
  the order of the input: the i-th result is what the resolver returns for the i-th link and
  carries that link, whatever the outcomes of the other links of its group and of the groups
  before it are.
\<close>

theorem unrestrict_links_batch_one_outcome_per_link:
  "length (fst (unrestrict_links_batch c srv links)) = length links \<and>
   map link_of (fst (unrestrict_links_batch c srv links)) = links \<and>
   (\<forall>i < length links.
      fst (unrestrict_links_batch c srv links) ! i = fst (unrestrict_link c (srv i) (links ! i)))"
proof -
  have r: "fst (unrestrict_links_batch c srv links) =
      map (\<lambda>(i, link). fst (unrestrict_link c (srv i) link)) (zip [0..<length links] links)"
    by (simp add: unrestrict_links_batch_def process_batches_results concat_batches)
  have m: "map (link_of \<circ> (\<lambda>(i, link). fst (unrestrict_link c (srv i) link))) zs = map snd zs"
    for zs :: "(nat \<times> pystr) list"
    by (induction zs) (auto simp: unrestrict_link_link)
  show ?thesis
    unfolding r by (simp add: m)
qed

theorem unrestrict_links_batch_one_outcome_per_link_witness:
  "length (fst (unrestrict_links_batch c0 srv_second_fails [link_1, link_2, link_3, link_4])) = 4 \<and>
   map link_of (fst (unrestrict_links_batch c0 srv_second_fails [link_1, link_2, link_3, link_4])) =
     [link_1, link_2, link_3, link_4] \<and>
   fst (unrestrict_links_batch c0 srv_second_fails [link_1, link_2, link_3, link_4]) ! 1 =
     Retry_next_cycle link_2 3 \<and>
   fst (unrestrict_links_batch c0 srv_second_fails [link_1, link_2, link_3, link_4]) ! 3 =
     Success link_4 u_mkv"
proof -
  note t = unrestrict_links_batch_one_outcome_per_link
    [of c0 srv_second_fails "[link_1, link_2, link_3, link_4]"]
  have a: "fst (unrestrict_link c0 (srv_second_fails 1) link_2) = Retry_next_cycle link_2 3"
    by (simp add: unrestrict_link_def srv_second_fails_def srv_503_def c0_def)
  have b: "fst (unrestrict_link c0 (srv_second_fails 3) link_4) = Success link_4 u_mkv"
    by (simp add: unrestrict_link_def srv_second_fails_def)
  from t have "fst (unrestrict_links_batch c0 srv_second_fails [link_1, link_2, link_3, link_4]) ! 1 =
      fst (unrestrict_link c0 (srv_second_fails 1) ([link_1, link_2, link_3, link_4] ! 1))"
    by simp
  moreover from t have
    "fst (unrestrict_links_batch c0 srv_second_fails [link_1, link_2, link_3, link_4]) ! 3 =
      fst (unrestrict_link c0 (srv_second_fails 3) ([link_1, link_2, link_3, link_4] ! 3))"
    by simp
  ultimately show ?thesis using t a b by simp
qed

section \<open>Properties: the scheduler\<close>

declare quiet.simps [simp del]

lemma run_scheduler_quiet:
  "\<forall>it \<in> set its. quiet it \<Longrightarrow>
   run_scheduler interval n its evs =
     (Running, n + length its,
      evs @ concat (map (quiet_events interval) (zip [Suc n..<Suc (n + length its)] its)))"
proof (induction its arbitrary: n evs)
  case Nil
  then show ?case by simp
next
  case (Cons it its)
  then have q: "quiet it" and qs: "\<forall>it \<in> set its. quiet it" by simp_all
  have up: "[Suc n..<Suc (n + length (it # its))] = Suc n # [Suc (Suc n)..<Suc (Suc n + length its)]"
    by (simp add: upt_conv_Cons del: upt_Suc)
  note ih = Cons.IH [OF qs, of "Suc n"]
  show ?case
  proof (cases "cycle_raises it")
    case None
    with q show ?thesis
      unfolding up by (simp add: ih quiet.simps del: upt_Suc)
  next
    case (Some r)
    with q obtain e where "r = Exception e" by (cases r) (auto simp: quiet.simps)
    with Some q show ?thesis
      unfolding up by (simp add: ih quiet.simps del: upt_Suc)
  qed
qed

lemma run_scheduler_exit:
  assumes "fst (run_scheduler interval n its evs) \<noteq> Running"
  shows "\<exists>it \<in> set its. \<not> quiet it"
proof (rule ccontr)
  assume "\<not> (\<exists>it \<in> set its. \<not> quiet it)"
  then have "\<forall>it \<in> set its. quiet it" by blast
  from run_scheduler_quiet [OF this, of interval n evs] assms show False by simp
qed

text \<open>
  C8. Whatever \<^verbatim>\<open>Exception\<close> the cycles raise, the scheduler stays in its loop: after any
  number of passes in which every cycle returns or raises an \<^verbatim>\<open>Exception\<close> and no sleep is
  interrupted, it is still running, has started one cycle per pass, and has slept the whole
  interval after every cycle, failed or not. It leaves the loop only in a pass with an
  interrupt or termination signal (\<^verbatim>\<open>KeyboardInterrupt\<close>, \<^verbatim>\<open>CancelledError\<close>,
  \<^verbatim>\<open>SystemExit\<close>), raised in the cycle or during the sleep.
\<close>

theorem run_scheduler_survives_cycle_failures:
  "((\<forall>it \<in> set its. quiet it) \<longrightarrow>
      run_scheduler interval 0 its [] =
        (Running, length its,
         concat (map (quiet_events interval) (zip [1..<Suc (length its)] its)))) \<and>
   (fst (run_scheduler interval 0 its []) \<noteq> Running \<longrightarrow>
      (\<exists>it \<in> set its. (\<exists>s. cycle_raises it = Some (Signal s)) \<or> sleep_interrupted it \<noteq> None))"
proof (intro conjI impI)
  assume "\<forall>it \<in> set its. quiet it"
  then show "run_scheduler interval 0 its [] =
        (Running, length its,
         concat (map (quiet_events interval) (zip [1..<Suc (length its)] its)))"
    using run_scheduler_quiet [of its interval 0 "[]"] by simp
next
  assume "fst (run_scheduler interval 0 its []) \<noteq> Running"
  then obtain it where it: "it \<in> set its" "\<not> quiet it"
    using run_scheduler_exit by blast
  have "(\<exists>s. cycle_raises it = Some (Signal s)) \<or> sleep_interrupted it \<noteq> None"
  proof (cases "cycle_raises it")
    case None
    with it(2) show ?thesis by (simp add: quiet.simps)
  next
    case (Some r)
    with it(2) show ?thesis by (cases r) (auto simp: quiet.simps)
  qed
  with it(1) show "\<exists>it \<in> set its. (\<exists>s. cycle_raises it = Some (Signal s)) \<or> sleep_interrupted it \<noteq> None"
    by blast
qed

theorem run_scheduler_survives_cycle_failures_witness:
  "run_scheduler 1200 0 three_passes [] =
     (Running, 3,
      [Cycle_started 1, Cycle_failed 1 (py ''TypeError''),
       Slept 1200,
       Cycle_started 2, Slept 1200,
       Cycle_started 3, Cycle_failed 3 (py ''OSError''), Slept 1200])"
  using run_scheduler_survives_cycle_failures [of three_passes 1200]
  by (simp add: three_passes_def upt_rec quiet.simps)

section \<open>Properties: the acceptance policy\<close>

lemma filesize_mb_threshold:
  "(min_video_size_mb \<le> filesize_mb fsize) = (300 * 1024 * 1024 \<le> fsize)"
proof (cases "fsize > 0")
  case True
  have "(300 \<le> real_of_int fsize / (1024 * 1024)) = (real_of_int (300 * 1024 * 1024) \<le> real_of_int fsize)"
    by (simp add: field_simps)
  also have "\<dots> = (300 * 1024 * 1024 \<le> fsize)"
    by (simp only: of_int_le_iff)
  finally show ?thesis using True by (simp add: filesize_mb_def min_video_size_mb_def)
next
  case False
  then show ?thesis by (simp add: filesize_mb_def min_video_size_mb_def)
qed

text \<open>
  C5. For every file name, size and MIME type, with \<^verbatim>\<open>file_ext\<close> and \<^verbatim>\<open>is_video\<close> as
  the source computes them: a named file whose extension is one of .srt, .ass, .vtt, .sub,
  .idx, .ssa, .smi is accepted as a subtitle whatever its size; a named file that is not a
  subtitle and is a video by its extension or its MIME type is rejected as
  \<^verbatim>\<open>video_small\<close> when its size is below 300 * 1024 * 1024 bytes and accepted from exactly
  that size on; everything else is rejected.
\<close>

theorem should_process_file_policy:
  "(filename \<noteq> [] \<and>
    file_ext L filename \<in>
      set (map py [''.srt'', ''.ass'', ''.vtt'', ''.sub'', ''.idx'', ''.ssa'', ''.smi'']) \<longrightarrow>
      should_process (should_process_file L filename fsize mime_type) \<and>
      category (should_process_file L filename fsize mime_type) = py ''subtitle'') \<and>
   (filename \<noteq> [] \<and> file_ext L filename \<notin> allowed_subtitle_extensions \<and>
    is_video L filename mime_type \<and> fsize < 300 * 1024 * 1024 \<longrightarrow>
      \<not> should_process (should_process_file L filename fsize mime_type) \<and>
      category (should_process_file L filename fsize mime_type) = py ''video_small'') \<and>
   (filename \<noteq> [] \<and> file_ext L filename \<notin> allowed_subtitle_extensions \<and>
    is_video L filename mime_type \<and> 300 * 1024 * 1024 \<le> fsize \<longrightarrow>
      should_process (should_process_file L filename fsize mime_type) \<and>
      category (should_process_file L filename fsize mime_type) = py ''video'') \<and>
   (file_ext L filename \<notin> allowed_subtitle_extensions \<and> \<not> is_video L filename mime_type \<longrightarrow>
      \<not> should_process (should_process_file L filename fsize mime_type))"
  by (simp add: should_process_file_def filesize_mb_threshold allowed_subtitle_extensions_def)

lemmas policy_inputs =
  file_ext_def path_suffix_def path_name_def suffix_at_def ascii_tables_def py_def
  allowed_subtitle_extensions_def allowed_video_extensions_def is_video_def

theorem should_process_file_policy_witness:
  "should_process (should_process_file ascii_tables (py ''Movie.srt'') 0 []) \<and>
   \<not> should_process (should_process_file ascii_tables (py ''Movie.mkv'') 314572799 []) \<and>
   category (should_process_file ascii_tables (py ''Movie.mkv'') 314572799 []) = py ''video_small'' \<and>
   should_process (should_process_file ascii_tables (py ''Movie.mkv'') 314572800 []) \<and>
   should_process (should_process_file ascii_tables (py ''clip'') 314572800 (py ''video/mp4'')) \<and>
   \<not> should_process (should_process_file ascii_tables (py ''notes.txt'') 314572800 (py ''text/plain''))"
  using should_process_file_policy [of "py ''Movie.srt''" ascii_tables 0 "[]"]
    should_process_file_policy [of "py ''Movie.mkv''" ascii_tables 314572799 "[]"]
    should_process_file_policy [of "py ''Movie.mkv''" ascii_tables 314572800 "[]"]
    should_process_file_policy [of "py ''clip''" ascii_tables 314572800 "py ''video/mp4''"]
    should_process_file_policy [of "py ''notes.txt''" ascii_tables 314572800 "py ''text/plain''"]
  by (simp add: policy_inputs)

section \<open>Properties: file names\<close>

subsection \<open>A clean name without escapes is left as it is\<close>

lemma has_escape_append_left: "has_escape xs \<Longrightarrow> has_escape (xs @ ys)"
  by (induction xs rule: has_escape.induct) auto

lemma has_escape_Cons: "has_escape xs \<Longrightarrow> has_escape (x # xs)"
  by (cases xs rule: has_escape.cases) auto

lemma has_escape_append_right: "has_escape ys \<Longrightarrow> has_escape (xs @ ys)"
  by (induction xs) (auto simp: has_escape_Cons)

lemma pct_to_space_id: "\<not> has_escape s \<Longrightarrow> pct_to_space s = s"
  by (induction s rule: pct_to_space.induct) auto

lemma unquote_to_bytes_id: "\<not> has_escape s \<Longrightarrow> unquote_to_bytes s = s"
  by (induction s rule: unquote_to_bytes.induct) auto

lemma utf8_decode_ascii: "\<forall>b \<in> set bs. b < 128 \<Longrightarrow> utf8_decode bs = bs"
  by (induction bs) auto

lemma unquote_runs_id: "\<not> has_escape s \<Longrightarrow> unquote_runs s = s"
proof (induction s rule: unquote_runs.induct)
  case (1 s)
  show ?case
  proof (cases "s = []")
    case True
    then show ?thesis by (subst unquote_runs.simps) simp
  next
    case False
    define a where "a = takeWhile (\<lambda>c. c < 128) s"
    define r where "r = dropWhile (\<lambda>c. c < 128) s"
    define n where "n = takeWhile (\<lambda>c. \<not> c < 128) r"
    define r' where "r' = dropWhile (\<lambda>c. \<not> c < 128) r"
    have s: "s = a @ r" unfolding a_def r_def by simp
    have r: "r = n @ r'" unfolding n_def r'_def by simp
    have "\<not> has_escape a"
      using "1.prems" has_escape_append_left [of a r] s by auto
    then have utb: "unquote_to_bytes a = a" by (rule unquote_to_bytes_id)
    have "\<forall>b \<in> set a. b < 128" unfolding a_def by (auto dest: set_takeWhileD)
    then have a: "utf8_decode (unquote_to_bytes a) = a"
      unfolding utb by (rule utf8_decode_ascii)
    have "has_escape r' \<Longrightarrow> has_escape s"
      using has_escape_append_right [of r' "a @ n"] s r by simp
    with "1.prems" have "\<not> has_escape r'" by blast
    then have ih: "unquote_runs r' = r'"
      unfolding r'_def r_def by (rule "1.IH" [OF False refl])
    have "unquote_runs s = utf8_decode (unquote_to_bytes a) @ n @ unquote_runs r'"
      using False by (subst unquote_runs.simps) (simp add: Let_def a_def r_def n_def r'_def)
    also have "\<dots> = a @ n @ r'" unfolding a ih by simp
    also have "\<dots> = s" using s r by simp
    finally show ?thesis .
  qed
qed

lemma unquote_id: "\<not> has_escape s \<Longrightarrow> unquote s = s"
  by (simp add: unquote_def unquote_runs_id)

lemma unquote_passes_id: "\<not> has_escape s \<Longrightarrow> unquote_passes n s = s"
  by (cases n) (simp_all add: unquote_id)

lemma plain_not_dot: "plain c \<Longrightarrow> c \<noteq> 46"
  by (auto simp: plain_def is_sep_def)

lemma strip_ext_id: "\<forall>c \<in> set s. plain c \<Longrightarrow> strip_ext s = s"
  using plain_not_dot by (auto simp: strip_ext_def)

lemma strip_site_prefix_id:
  assumes "\<forall>c \<in> set s. plain c"
  shows "strip_site_prefix L s = s"
proof -
  have "take 5 (dropWhile (re_digit L) (drop 3 s)) \<noteq> py ''.com@''"
  proof
    assume e: "take 5 (dropWhile (re_digit L) (drop 3 s)) = py ''.com@''"
    have "46 \<in> set (take 5 (dropWhile (re_digit L) (drop 3 s)))"
      unfolding e by (simp add: py_def)
    then have "46 \<in> set s"
      by (meson in_set_dropD in_set_takeD set_dropWhileD)
    with assms plain_not_dot show False by blast
  qed
  then show ?thesis by (simp add: strip_site_prefix_def Let_def)
qed

lemma media_ext_match_dot: "media_ext_match x \<Longrightarrow> 46 \<in> set x"
  by (auto simp: media_ext_match_def split: list.splits)

lemma strip_media_ext_id:
  assumes "\<forall>c \<in> set s. plain c"
  shows "strip_media_ext s = s"
proof -
  have nodot: "46 \<notin> set s" using assms plain_not_dot by blast
  have a: "\<not> media_ext_match (drop (length s - 4) s)"
  proof
    assume "media_ext_match (drop (length s - 4) s)"
    then have "46 \<in> set (drop (length s - 4) s)" by (rule media_ext_match_dot)
    then have "46 \<in> set s" by (rule in_set_dropD)
    with nodot show False by simp
  qed
  have b: "\<not> media_ext_match (drop (length s - 5) (butlast s))"
  proof
    assume "media_ext_match (drop (length s - 5) (butlast s))"
    then have "46 \<in> set (drop (length s - 5) (butlast s))" by (rule media_ext_match_dot)
    then have "46 \<in> set (butlast s)" by (rule in_set_dropD)
    then have "46 \<in> set s" by (rule in_set_butlastD)
    with nodot show False by simp
  qed
  show ?thesis using a b by (simp add: strip_media_ext_def Let_def)
qed

lemma replace_illegal_id: "\<forall>c \<in> set s. plain c \<Longrightarrow> replace_illegal s = s"
  by (simp add: replace_illegal_def plain_def map_idI)

lemma remove_ctrl_id: "\<forall>c \<in> set s. plain c \<Longrightarrow> remove_ctrl s = s"
  by (simp add: remove_ctrl_def plain_def)

lemma collapse_none: "\<forall>c \<in> set s. \<not> P c \<Longrightarrow> collapse P b s = s"
  by (induction s arbitrary: b) auto

lemma collapse_ok_ws: "ok_ws b s \<Longrightarrow> collapse is_space b s = s"
  by (induction s arbitrary: b) (auto split: if_splits)

lemma ok_ws_weaken: "ok_ws b s \<Longrightarrow> ok_ws False s"
  by (cases s) (auto split: if_splits)

lemma strip_id:
  assumes "s \<noteq> [] \<longrightarrow> \<not> is_space (hd s) \<and> \<not> is_space (last s)"
  shows "strip s = s"
proof (cases "s = []")
  case True
  then show ?thesis by (simp add: strip_def)
next
  case False
  with assms have h: "\<not> is_space (hd s)" and l: "\<not> is_space (last s)" by simp_all
  from False h have 1: "dropWhile is_space s = s" by (cases s) auto
  have 2: "dropWhile is_space (rev s) = rev s"
  proof (cases "rev s")
    case Nil
    with False show ?thesis by simp
  next
    case (Cons a as)
    have "hd (rev s) = last s" by (simp add: hd_rev)
    with Cons l have "\<not> is_space a" by simp
    with Cons show ?thesis by simp
  qed
  show ?thesis by (simp add: strip_def 1 2)
qed

lemma dropWhile_none: "\<forall>x \<in> set xs. \<not> P x \<Longrightarrow> dropWhile P xs = xs"
  by (cases xs) auto

lemma sub_trailing_dots_id:
  assumes "\<forall>c \<in> set s. plain c"
  shows "sub_trailing_dots s = s"
proof -
  have nodot: "\<forall>x \<in> set (rev s). \<not> x = 46" using assms plain_not_dot by auto
  have nl: "\<not> (s \<noteq> [] \<and> last s = 10)"
  proof
    assume a: "s \<noteq> [] \<and> last s = 10"
    then have "10 \<in> set s" using last_in_set [of s] by auto
    with assms have "plain 10" by blast
    then show False by (simp add: plain_def is_ctrl_def)
  qed
  have "drop_trailing_dots s = s"
    unfolding drop_trailing_dots_def dropWhile_none [OF nodot] by simp
  with nl show ?thesis
    unfolding sub_trailing_dots_def by auto
qed

lemma clean_name_tidy_id:
  assumes "tidy y" "\<not> has_escape y"
  shows "clean_name L y = y"
proof -
  from assms(1) have p: "\<forall>c \<in> set y. plain c" and w: "ok_ws False y"
    and e: "y \<noteq> [] \<longrightarrow> \<not> is_space (hd y) \<and> \<not> is_space (last y)" and l: "length y \<le> 100"
    by (simp_all add: tidy_def)
  have sep: "\<forall>c \<in> set y. \<not> is_sep c" using p by (simp add: plain_def)
  have nl: "\<not> 100 < length y" using l by simp
  show ?thesis
    unfolding clean_name_def
    by (simp add: unquote_passes_id [OF assms(2)] strip_ext_id [OF p] strip_site_prefix_id [OF p]
        strip_media_ext_id [OF p] pct_to_space_id [OF assms(2)] replace_illegal_id [OF p]
        remove_ctrl_id [OF p] collapse_none [OF sep] collapse_ok_ws [OF w] strip_id [OF e]
        sub_trailing_dots_id [OF p] truncate_name_def nl)
qed

subsection \<open>What the cleaning steps establish\<close>

lemma replace_illegal_set: "c \<in> set (replace_illegal s) \<Longrightarrow> \<not> is_illegal c"
  by (auto simp: replace_illegal_def is_illegal_def)

lemma remove_ctrl_set: "c \<in> set (remove_ctrl s) \<Longrightarrow> c \<in> set s \<and> \<not> is_ctrl c"
  by (simp add: remove_ctrl_def)

lemma collapse_set: "c \<in> set (collapse P b s) \<Longrightarrow> c = 32 \<or> (c \<in> set s \<and> \<not> P c)"
  by (induction s arbitrary: b) (auto split: if_splits)

lemma is_space_32: "is_space 32"
  by (simp add: is_space_def)

lemma plain_32: "plain 32"
  by (simp add: plain_def is_illegal_def is_ctrl_def is_sep_def)

lemma ok_ws_collapse: "ok_ws b (collapse is_space b s)"
  by (induction s arbitrary: b) (auto simp: is_space_32)

lemma ok_ws_take: "ok_ws b s \<Longrightarrow> ok_ws b (take n s)"
proof (induction s arbitrary: b n)
  case Nil
  then show ?case by simp
next
  case (Cons c cs)
  then show ?case by (cases n) (auto split: if_splits)
qed

lemma ok_ws_dropWhile: "ok_ws b s \<Longrightarrow> ok_ws False (dropWhile P s)"
proof (induction s arbitrary: b)
  case Nil
  then show ?case by simp
next
  case (Cons c cs)
  show ?case
  proof (cases "P c")
    case True
    with Cons show ?thesis by (auto split: if_splits)
  next
    case False
    with Cons.prems ok_ws_weaken [of b "c # cs"] show ?thesis by simp
  qed
qed

lemma ok_ws_no_space: "\<forall>c \<in> set w. \<not> is_space c \<Longrightarrow> ok_ws b w"
  by (induction w arbitrary: b) auto

lemma rev_dropWhile_rev: "\<exists>k. rev (dropWhile P (rev xs)) = take k xs"
proof -
  define a where "a = rev (dropWhile P (rev xs))"
  define b where "b = rev (takeWhile P (rev xs))"
  have "a @ b = rev (takeWhile P (rev xs) @ dropWhile P (rev xs))"
    unfolding a_def b_def by (simp only: rev_append)
  also have "\<dots> = xs" by simp
  finally have e: "a @ b = xs" .
  have "a = take (length a) (a @ b)" by simp
  then have "a = take (length a) xs" unfolding e .
  then show ?thesis unfolding a_def by blast
qed

lemma strip_take: "\<exists>k. strip s = take k (dropWhile is_space s)"
  unfolding strip_def by (rule rev_dropWhile_rev)

lemma strip_set: "c \<in> set (strip s) \<Longrightarrow> c \<in> set s"
proof -
  assume c: "c \<in> set (strip s)"
  obtain k where "strip s = take k (dropWhile is_space s)" using strip_take by blast
  with c have "c \<in> set (dropWhile is_space s)" by (auto dest: in_set_takeD)
  then show ?thesis by (rule set_dropWhileD)
qed

lemma strip_length: "length (strip s) \<le> length s"
proof -
  obtain k where "strip s = take k (dropWhile is_space s)" using strip_take by blast
  then have "length (strip s) \<le> length (dropWhile is_space s)" by simp
  also have "\<dots> \<le> length s" by (rule length_dropWhile_le)
  finally show ?thesis .
qed

lemma ok_ws_strip: "ok_ws b s \<Longrightarrow> ok_ws False (strip s)"
proof -
  assume "ok_ws b s"
  then have "ok_ws False (dropWhile is_space s)" by (rule ok_ws_dropWhile)
  moreover obtain k where "strip s = take k (dropWhile is_space s)" using strip_take by blast
  ultimately show ?thesis by (simp add: ok_ws_take)
qed

lemma strip_ends:
  assumes "strip s \<noteq> []"
  shows "\<not> is_space (hd (strip s)) \<and> \<not> is_space (last (strip s))"
proof
  obtain k where k: "strip s = take k (dropWhile is_space s)" using strip_take by blast
  with assms have "k \<noteq> 0" and ne: "dropWhile is_space s \<noteq> []" by auto
  then have "hd (strip s) = hd (dropWhile is_space s)" unfolding k by (simp add: hd_take)
  with ne show "\<not> is_space (hd (strip s))" using hd_dropWhile [of is_space s] by simp
next
  let ?d = "dropWhile is_space (rev (dropWhile is_space s))"
  from assms have ne: "?d \<noteq> []" by (simp add: strip_def)
  have "last (strip s) = hd ?d" unfolding strip_def by (simp add: last_rev)
  with ne show "\<not> is_space (last (strip s))"
    using hd_dropWhile [of is_space "rev (dropWhile is_space s)"] by simp
qed

lemma split_ws_words:
  "w \<in> set (split_ws s) \<Longrightarrow> w \<noteq> [] \<and> (\<forall>c \<in> set w. \<not> is_space c \<and> c \<in> set s)"
proof (induction s arbitrary: w rule: split_ws.induct)
  case (1 s)
  define r where "r = dropWhile is_space s"
  show ?case
  proof (cases "r = []")
    case True
    then have "split_ws s = []"
      by (subst split_ws.simps) (simp add: r_def Let_def)
    with "1.prems" show ?thesis by simp
  next
    case False
    define w1 where "w1 = takeWhile (\<lambda>c. \<not> is_space c) r"
    define rest where "rest = dropWhile (\<lambda>c. \<not> is_space c) r"
    from False have "split_ws s = w1 # split_ws rest"
      unfolding w1_def rest_def by (subst split_ws.simps) (simp add: r_def Let_def)
    with "1.prems" have "w = w1 \<or> w \<in> set (split_ws rest)" by simp
    then show ?thesis
    proof
      assume w: "w = w1"
      have "r = hd r # tl r" using False by simp
      moreover have "\<not> is_space (hd r)"
        using False hd_dropWhile [of is_space s] unfolding r_def by simp
      ultimately have "w1 = hd r # takeWhile (\<lambda>c. \<not> is_space c) (tl r)"
        unfolding w1_def by (metis takeWhile.simps(2))
      then have ne: "w1 \<noteq> []" by simp
      have "\<not> is_space c \<and> c \<in> set s" if c: "c \<in> set w1" for c
      proof
        from c show "\<not> is_space c" unfolding w1_def by (rule set_takeWhileD [THEN conjunct2])
        from c have "c \<in> set r" unfolding w1_def by (rule set_takeWhileD [THEN conjunct1])
        then show "c \<in> set s" unfolding r_def by (rule set_dropWhileD)
      qed
      with ne show ?thesis unfolding w by blast
    next
      assume "w \<in> set (split_ws rest)"
      then have ih: "w \<noteq> [] \<and> (\<forall>c \<in> set w. \<not> is_space c \<and> c \<in> set rest)"
        unfolding rest_def by (rule "1.IH" [OF r_def False])
      have sub: "c \<in> set s" if "c \<in> set rest" for c
      proof -
        from that have "c \<in> set r" unfolding rest_def by (rule set_dropWhileD)
        then show ?thesis unfolding r_def by (rule set_dropWhileD)
      qed
      from ih sub show ?thesis by blast
    qed
  qed
qed

lemma ok_ws_append_word:
  "ok_ws b t \<Longrightarrow> t \<noteq> [] \<Longrightarrow> \<not> is_space (last t) \<Longrightarrow> \<forall>c \<in> set w. \<not> is_space c \<Longrightarrow>
   ok_ws b (t @ [32] @ w)"
proof (induction t arbitrary: b)
  case Nil
  then show ?case by simp
next
  case (Cons a t)
  show ?case
  proof (cases "t = []")
    case True
    with Cons.prems show ?thesis by (simp add: is_space_32 ok_ws_no_space)
  next
    case False
    with Cons.prems have l: "\<not> is_space (last t)" by simp
    show ?thesis
    proof (cases "is_space a")
      case True
      with Cons.prems have "a = 32" "\<not> b" "ok_ws True t" by simp_all
      with Cons.IH [OF _ False l Cons.prems(4)] True show ?thesis by simp
    next
      case False
      with Cons.prems have "ok_ws False t" by simp
      with Cons.IH [OF _ \<open>t \<noteq> []\<close> l Cons.prems(4)] False show ?thesis by simp
    qed
  qed
qed

lemma build_truncated_good:
  assumes "\<forall>w \<in> set ws. w \<noteq> [] \<and> (\<forall>c \<in> set w. \<not> is_space c)"
    and "ok_ws False t" and "t \<noteq> [] \<longrightarrow> \<not> is_space (last t)" and "length t \<le> 95"
  shows "ok_ws False (build_truncated t ws) \<and> length (build_truncated t ws) \<le> 95"
  using assms
proof (induction ws arbitrary: t)
  case Nil
  then show ?case by simp
next
  case (Cons w ws)
  from Cons.prems(1) have w: "w \<noteq> []" "\<forall>c \<in> set w. \<not> is_space c"
    and ws: "\<forall>w \<in> set ws. w \<noteq> [] \<and> (\<forall>c \<in> set w. \<not> is_space c)" by simp_all
  show ?case
  proof (cases "length (t @ [32] @ w) \<le> 95")
    case False
    with Cons.prems show ?thesis by simp
  next
    case fits: True
    define t' where "t' = (if t \<noteq> [] then t @ [32] @ w else w)"
    have 1: "ok_ws False t'"
      using ok_ws_append_word [of False t w] Cons.prems(2,3) w(2)
      by (simp add: t'_def ok_ws_no_space)
    have 2: "t' \<noteq> [] \<longrightarrow> \<not> is_space (last t')"
      using w by (simp add: t'_def)
    have 3: "length t' \<le> 95" using fits by (simp add: t'_def)
    have "build_truncated t (w # ws) = build_truncated t' ws"
      using fits by (simp add: t'_def)
    with Cons.IH [OF ws 1 2 3] show ?thesis by simp
  qed
qed

lemma build_truncated_set:
  "c \<in> set (build_truncated t ws) \<Longrightarrow> c \<in> set t \<or> c = 32 \<or> (\<exists>w \<in> set ws. c \<in> set w)"
proof (induction ws arbitrary: t)
  case Nil
  then show ?case by simp
next
  case (Cons w ws)
  show ?case
  proof (cases "length (t @ [32] @ w) \<le> 95")
    case False
    with Cons.prems show ?thesis by simp
  next
    case True
    with Cons.prems have "c \<in> set (build_truncated (if t \<noteq> [] then t @ [32] @ w else w) ws)"
      by simp
    from Cons.IH [OF this] show ?thesis by (auto split: if_splits)
  qed
qed

lemma truncate_name_props:
  assumes "\<forall>c \<in> set s. plain c" "ok_ws False s"
  shows "(\<forall>c \<in> set (truncate_name s). plain c) \<and> ok_ws False (truncate_name s) \<and>
    length (truncate_name s) \<le> 100"
proof (cases "length s > 100")
  case False
  with assms show ?thesis by (simp add: truncate_name_def)
next
  case True
  define t where "t = build_truncated [] (split_ws s)"
  have words: "\<forall>w \<in> set (split_ws s). w \<noteq> [] \<and> (\<forall>c \<in> set w. \<not> is_space c)"
    using split_ws_words by blast
  have good: "ok_ws False t \<and> length t \<le> 95"
    unfolding t_def by (rule build_truncated_good [OF words]) simp_all
  have tset: "\<forall>c \<in> set t. plain c"
  proof
    fix c assume "c \<in> set t"
    then have "c = 32 \<or> (\<exists>w \<in> set (split_ws s). c \<in> set w)"
      unfolding t_def using build_truncated_set [of c "[]" "split_ws s"] by simp
    then show "plain c"
      using plain_32 split_ws_words assms(1) by blast
  qed
  show ?thesis
  proof (cases "t = []")
    case False
    with True have "truncate_name s = t" by (simp add: truncate_name_def t_def Let_def)
    with good tset show ?thesis by simp
  next
    case t: True
    with True have e: "truncate_name s = take 95 s" by (simp add: truncate_name_def t_def Let_def)
    have "\<forall>c \<in> set (take 95 s). plain c" using assms(1) by (auto dest: in_set_takeD)
    moreover have "ok_ws False (take 95 s)" using assms(2) by (rule ok_ws_take)
    ultimately show ?thesis unfolding e by simp
  qed
qed

lemma clean_name_tidy: "tidy (clean_name L x)"
proof -
  define s4 where "s4 = pct_to_space (strip_media_ext (strip_site_prefix L
    (strip_ext (unquote_passes 3 x))))"
  define s6 where "s6 = remove_ctrl (replace_illegal s4)"
  define s7 where "s7 = collapse is_sep False s6"
  define s8 where "s8 = collapse is_space False s7"
  define s9 where "s9 = strip s8"
  define s11 where "s11 = truncate_name s9"
  have p6: "\<forall>c \<in> set s6. \<not> is_illegal c \<and> \<not> is_ctrl c"
    unfolding s6_def using remove_ctrl_set replace_illegal_set by blast
  have p7: "\<forall>c \<in> set s7. plain c"
  proof
    fix c assume "c \<in> set s7"
    then have "c = 32 \<or> (c \<in> set s6 \<and> \<not> is_sep c)" unfolding s7_def by (rule collapse_set)
    with p6 plain_32 show "plain c" by (auto simp: plain_def)
  qed
  have p8: "\<forall>c \<in> set s8. plain c"
  proof
    fix c assume "c \<in> set s8"
    then have "c = 32 \<or> (c \<in> set s7 \<and> \<not> is_space c)" unfolding s8_def by (rule collapse_set)
    with p7 plain_32 show "plain c" by auto
  qed
  have w8: "ok_ws False s8" unfolding s8_def by (rule ok_ws_collapse)
  have p9: "\<forall>c \<in> set s9. plain c" unfolding s9_def using p8 strip_set by blast
  have w9: "ok_ws False s9" unfolding s9_def using w8 by (rule ok_ws_strip)
  have d9: "sub_trailing_dots s9 = s9" using p9 by (rule sub_trailing_dots_id)
  note t = truncate_name_props [OF p9 w9]
  have "clean_name L x = strip (truncate_name (sub_trailing_dots s9))"
    by (simp add: clean_name_def s9_def s8_def s7_def s6_def s4_def)
  then have c: "clean_name L x = strip s11"
    unfolding d9 s11_def .
  have "\<forall>c \<in> set (strip s11). plain c" using t strip_set unfolding s11_def by blast
  moreover have "ok_ws False (strip s11)" using t ok_ws_strip unfolding s11_def by blast
  moreover have "strip s11 \<noteq> [] \<longrightarrow> \<not> is_space (hd (strip s11)) \<and> \<not> is_space (last (strip s11))"
    using strip_ends by blast
  moreover have "length (strip s11) \<le> 100"
    using t strip_length [of s11] unfolding s11_def by simp
  ultimately show ?thesis unfolding c tidy_def by blast
qed

subsection \<open>Idempotence\<close>

lemmas name_defs = sanitize_filename_def clean_name_def fallback_name_def truncate_name_def
  strip_ext_def strip_site_prefix_def strip_media_ext_def media_ext_match_def replace_illegal_def
  remove_ctrl_def sub_trailing_dots_def drop_trailing_dots_def strip_def unquote_def
  is_illegal_def is_ctrl_def is_sep_def is_space_def is_hex_def hex_val_def is_cont_def
  second_ok_def ascii_tables_def py_def numeral_3_eq_3 unquote_runs.simps

lemma clean_name_empty: "clean_name L [] = []"
  by (simp add: name_defs)

text \<open>
  C4 (amended). \<^verbatim>\<open>sanitize_filename(sanitize_filename(x)) == sanitize_filename(x)\<close> for
  every \<open>x\<close> whose cleaned name has at least three characters, so that the fallback to the
  characters of the original name is not taken, and whose result holds no percent escape
  \<^verbatim>\<open>%XX\<close>; and for the empty name.
\<close>

theorem sanitize_filename_idempotent_on_clean_names:
  "(3 \<le> length (clean_name L x) \<and> \<not> has_escape (sanitize_filename L x) \<longrightarrow>
      sanitize_filename L (sanitize_filename L x) = sanitize_filename L x) \<and>
   sanitize_filename L (sanitize_filename L []) = sanitize_filename L []"
proof (intro conjI impI)
  assume h: "3 \<le> length (clean_name L x) \<and> \<not> has_escape (sanitize_filename L x)"
  define y where "y = clean_name L x"
  from h have len: "3 \<le> length y" by (simp add: y_def)
  have "x \<noteq> []"
  proof
    assume "x = []"
    with len show False by (simp add: y_def clean_name_empty)
  qed
  moreover from len have "y \<noteq> []" "\<not> length y < 3" by auto
  ultimately have s: "sanitize_filename L x = y"
    unfolding sanitize_filename_def y_def [symmetric] by (simp add: Let_def)
  with h have ne: "\<not> has_escape y" by simp
  have "tidy y" unfolding y_def by (rule clean_name_tidy)
  then have c: "clean_name L y = y" using ne by (rule clean_name_tidy_id)
  from len have "y \<noteq> []" "\<not> length y < 3" by auto
  then have "sanitize_filename L y = y"
    unfolding sanitize_filename_def c by (simp add: Let_def)
  then show "sanitize_filename L (sanitize_filename L x) = sanitize_filename L x"
    unfolding s .
next
  have u: "sanitize_filename L [] = py ''unknown''" by (simp add: sanitize_filename_def)
  have "sanitize_filename L (py ''unknown'') = py ''unknown''"
    by (simp add: name_defs)
  then show "sanitize_filename L (sanitize_filename L []) = sanitize_filename L []"
    unfolding u .
qed

theorem sanitize_filename_idempotent_on_clean_names_witness:
  "sanitize_filename ascii_tables (py ''Movie.mkv'') = py ''Movie'' \<and>
   sanitize_filename ascii_tables (py ''Movie'') = py ''Movie''"
proof -
  have v: "sanitize_filename ascii_tables (py ''Movie.mkv'') = py ''Movie''"
    by (simp add: name_defs)
  have h1: "3 \<le> length (clean_name ascii_tables (py ''Movie.mkv''))"
    by (simp add: name_defs)
  have h2: "\<not> has_escape (sanitize_filename ascii_tables (py ''Movie.mkv''))"
    unfolding v by (simp add: py_def)
  from sanitize_filename_idempotent_on_clean_names [of ascii_tables "py ''Movie.mkv''"] h1 h2
  have "sanitize_filename ascii_tables (sanitize_filename ascii_tables (py ''Movie.mkv'')) =
      sanitize_filename ascii_tables (py ''Movie.mkv'')"
    by blast
  then have "sanitize_filename ascii_tables (py ''Movie'') = py ''Movie''"
    unfolding v .
  with v show ?thesis by (rule conjI)
qed

text \<open>
  The claim as stated fails in two ways. The name \<^verbatim>\<open>a-.mkv\<close> is cleaned to \<^verbatim>\<open>a\<close>,
  which is too short, so the result is built from the original name: \<^verbatim>\<open>a-mkv\<close>, whose
  hyphen a second call turns into a space. The name \<^verbatim>\<open>%25%0041abc\<close> decodes to a percent
  sign, a NUL and \<^verbatim>\<open>41abc\<close>; removing the NUL leaves the escape \<^verbatim>\<open>%41\<close>, which a
  second call decodes.
\<close>

theorem sanitize_filename_not_idempotent:
  "sanitize_filename ascii_tables name_short = py ''a-mkv'' \<and>
   sanitize_filename ascii_tables (sanitize_filename ascii_tables name_short) = py ''a mkv'' \<and>
   sanitize_filename ascii_tables (sanitize_filename ascii_tables name_short) \<noteq>
     sanitize_filename ascii_tables name_short \<and>
   sanitize_filename ascii_tables name_encoded = py ''%41abc'' \<and>
   sanitize_filename ascii_tables (sanitize_filename ascii_tables name_encoded) = py ''Aabc'' \<and>
   sanitize_filename ascii_tables (sanitize_filename ascii_tables name_encoded) \<noteq>
     sanitize_filename ascii_tables name_encoded"
proof -
  have 1: "sanitize_filename ascii_tables name_short = py ''a-mkv''"
    by (simp add: name_short_def name_defs)
  have 2: "sanitize_filename ascii_tables (py ''a-mkv'') = py ''a mkv''"
    by (simp add: name_defs)
  have 3: "sanitize_filename ascii_tables name_encoded = py ''%41abc''"
    by (simp add: name_encoded_def name_defs)
  have 4: "sanitize_filename ascii_tables (py ''%41abc'') = py ''Aabc''"
    by (simp add: name_defs)
  show ?thesis
    unfolding 1 2 3 4 by (simp add: py_def)
qed

section \<open>Properties: an empty catalog\<close>

text \<open>
  C9. When the catalog fetch returns the empty list, \<^verbatim>\<open>process_torrents_with_grouping\<close>
  returns the failure \<^verbatim>\<open>No torrents found\<close>, leaves the output directory as it is and
  resolves no link. \<^verbatim>\<open>process_from_api\<close>, when it has an API key and goes to the API (in
  cycle mode, or when one of the two data files is missing), then returns a failure with the
  output directory and the pointer files untouched and no link resolved: the failure
  \<^verbatim>\<open>No torrents found\<close> when it is called outside an event loop, and the failure of
  \<^verbatim>\<open>run_until_complete\<close> when it is called inside a running one, where the fetch does not
  even start.
\<close>

theorem empty_catalog_is_a_failure:
  "fst (fetch_torrents (pages net)) = [] \<longrightarrow>
     process_torrents_with_grouping c net od = (Api_failure (py ''No torrents found''), od, []) \<and>
     (api_key \<noteq> [] \<and>
      (cycle_mode \<or> torrents_file (out w) = Absent \<or> unrestricted_file (out w) = Absent) \<longrightarrow>
        process_from_api L api_key loop_running c net w skip_existing existing_urls cycle_mode =
          (Proc_failure
             (if loop_running then py ''This event loop is already running''
              else py ''No torrents found''), w, []))"
proof (intro impI conjI)
  assume e: "fst (fetch_torrents (pages net)) = []"
  show p: "process_torrents_with_grouping c net od = (Api_failure (py ''No torrents found''), od, [])"
    for od
    using e by (simp add: process_torrents_with_grouping_def)
  assume "api_key \<noteq> [] \<and>
      (cycle_mode \<or> torrents_file (out w) = Absent \<or> unrestricted_file (out w) = Absent)"
  then show "process_from_api L api_key loop_running c net w skip_existing existing_urls cycle_mode =
          (Proc_failure
             (if loop_running then py ''This event loop is already running''
              else py ''No torrents found''), w, [])"
    by (auto simp: process_from_api_def run_real_debrid_sync_def p)
qed

theorem empty_catalog_is_a_failure_witness:
  "fst (fetch_torrents (pages net_500)) = [] \<and>
   process_torrents_with_grouping c0 net_500 (out empty_world) =
     (Api_failure (py ''No torrents found''), out empty_world, []) \<and>
   process_from_api ascii_tables (py ''KEY'') False c0 net_500 empty_world True {} False =
     (Proc_failure (py ''No torrents found''), empty_world, []) \<and>
   process_from_api ascii_tables (py ''KEY'') True c0 net_500 empty_world True {} True =
     (Proc_failure (py ''This event loop is already running''), empty_world, [])"
proof -
  have e: "fst (fetch_torrents (pages net_500)) = []"
    by (simp add: net_500_def fetch_torrents_def srv_500_def Let_def)
  have k: "py ''KEY'' \<noteq> []" by (simp add: py_def)
  have a: "torrents_file (out empty_world) = Absent" by (simp add: empty_world_def)
  from empty_catalog_is_a_failure [of net_500 c0 "out empty_world" "py ''KEY''" False empty_world
      ascii_tables False True "{}"]
    empty_catalog_is_a_failure [of net_500 c0 "out empty_world" "py ''KEY''" True empty_world
      ascii_tables True True "{}"] e k a
  show ?thesis by simp
qed

section \<open>Properties: which links are resolved\<close>

lemma collect_inner:
  "foldl (\<lambda>acc link. if P link then acc @ [link] else acc) acc ls = acc @ filter P ls"
  by (induction ls arbitrary: acc) auto

lemma collect_outer:
  "foldl (\<lambda>all_links t.
        if is_downloaded t \<and> tlinks t \<noteq> [] then
          foldl (\<lambda>acc link. if startswith link rd_prefix then acc @ [link] else acc)
            all_links (tlinks t)
        else all_links) acc ts =
   acc @ concat (map (\<lambda>t. filter (\<lambda>l. startswith l rd_prefix) (tlinks t)) (filter is_downloaded ts))"
proof (induction ts arbitrary: acc)
  case Nil
  then show ?case by simp
next
  case (Cons t ts)
  show ?case
  proof (cases "is_downloaded t \<and> tlinks t \<noteq> []")
    case True
    then show ?thesis by (simp add: Cons.IH collect_inner)
  next
    case False
    then show ?thesis by (auto simp: Cons.IH)
  qed
qed

lemma collect_links_eq:
  "collect_links ts =
     concat (map (\<lambda>t. filter (\<lambda>l. startswith l rd_prefix) (tlinks t)) (filter is_downloaded ts))"
  unfolding collect_links_def collect_outer by simp

lemma collect_links_set:
  "set (collect_links ts) =
     {l. \<exists>t \<in> set ts. is_downloaded t \<and> l \<in> set (tlinks t) \<and> startswith l rd_prefix}"
  unfolding collect_links_eq by auto

lemma unrestrict_loop_posts:
  "l \<noteq> link \<Longrightarrow> Post l \<notin> set evs \<Longrightarrow>
   Post l \<notin> set (snd (unrestrict_loop c srv link n a429 a503 evs))"
proof (induction c srv link n a429 a503 evs rule: unrestrict_loop.induct)
  case (1 c srv link n a429 a503 evs)
  show ?case
    using 1 by (subst unrestrict_loop.simps)
      (simp add: Let_def split: reply.splits awaited.splits del: unrestrict_loop.simps)
qed

lemma unrestrict_link_posts: "Post l \<in> set (snd (unrestrict_link c srv link)) \<Longrightarrow> l = link"
  using unrestrict_loop_posts [of l link "[]" c srv 0 0 0]
  by (auto simp: unrestrict_link_def simp del: unrestrict_loop.simps)

lemma process_batches_events:
  "snd (process_batches c srv k bs results evs) =
     evs @ concat (map (\<lambda>(i, link). snd (unrestrict_link c (srv i) link))
       (zip [k..<k + length (concat bs)] (concat bs)))"
proof (induction bs arbitrary: k results evs)
  case Nil
  then show ?case by simp
next
  case (Cons b bs)
  have split: "[k..<k + (length b + length (concat bs))] =
      [k..<k + length b] @ [k + length b..<k + length b + length (concat bs)]"
    by (metis add.assoc le_add1 upt_add_eq_append)
  show ?case
    by (simp add: gather_def Cons.IH split zip_append)
qed

lemma batch_posts:
  assumes "Post l \<in> set (snd (unrestrict_links_batch c srv links))"
  shows "l \<in> set links"
proof -
  from assms obtain i link where il: "(i, link) \<in> set (zip [0..<length links] links)"
    and p: "Post l \<in> set (snd (unrestrict_link c (srv i) link))"
    by (auto simp: unrestrict_links_batch_def process_batches_events concat_batches)
  from p have "l = link" by (rule unrestrict_link_posts)
  moreover from il have "link \<in> set links" by (rule set_zip_rightD)
  ultimately show ?thesis by simp
qed

lemma batch_links: "map link_of (fst (unrestrict_links_batch c srv links)) = links"
proof -
  have m: "map (link_of \<circ> (\<lambda>(i, link). fst (unrestrict_link c (srv i) link))) zs = map snd zs"
    for zs :: "(nat \<times> pystr) list"
    by (induction zs) (auto simp: unrestrict_link_link)
  show ?thesis
    by (simp add: unrestrict_links_batch_def process_batches_results concat_batches m)
qed

lemma pass_posts:
  assumes "Post l \<in> set (snd (snd (process_torrents_with_grouping c net od)))"
  shows "l \<in> set (collect_links (fst (fetch_torrents (pages net))))"
proof -
  define ts where "ts = fst (fetch_torrents (pages net))"
  define new_links where "new_links =
    filter (\<lambda>link. link \<notin> set (map link_of (recorded od))) (collect_links ts)"
  have "snd (snd (process_torrents_with_grouping c net od)) =
      (if ts \<noteq> [] \<and> new_links \<noteq> [] then snd (unrestrict_links_batch c (replies net) new_links)
       else [])"
    by (simp add: process_torrents_with_grouping_def Let_def ts_def new_links_def recorded_def
        split: prod.splits)
  with assms have "Post l \<in> set (snd (unrestrict_links_batch c (replies net) new_links))"
    by (auto split: if_splits)
  then have "l \<in> set new_links" by (rule batch_posts)
  then show ?thesis by (simp add: new_links_def ts_def)
qed

lemma pass_recorded:
  assumes "r \<in> set (recorded (fst (snd (process_torrents_with_grouping c net od))))"
  shows "r \<in> set (recorded od) \<or>
    link_of r \<in> set (collect_links (fst (fetch_torrents (pages net))))"
proof -
  define ts where "ts = fst (fetch_torrents (pages net))"
  define new_links where "new_links =
    filter (\<lambda>link. link \<notin> set (map link_of (recorded od))) (collect_links ts)"
  define new_results where "new_results = fst (unrestrict_links_batch c (replies net) new_links)"
  have "recorded (fst (snd (process_torrents_with_grouping c net od))) =
      (if ts \<noteq> [] \<and> new_links \<noteq> [] then recorded od @ new_results else recorded od)"
    by (simp add: process_torrents_with_grouping_def Let_def ts_def new_links_def recorded_def
        new_results_def split: prod.splits)
  with assms have "r \<in> set (recorded od) \<or> r \<in> set new_results"
    by (auto split: if_splits)
  moreover have "link_of r \<in> set new_links" if "r \<in> set new_results"
  proof -
    from that have "link_of r \<in> set (map link_of new_results)" by simp
    then show ?thesis unfolding new_results_def batch_links .
  qed
  ultimately show ?thesis by (auto simp: new_links_def ts_def)
qed

lemma link_to_unrestricted_keys:
  "map_of (foldl (\<lambda>m r. case result_of r of Some u \<Rightarrow> AList.update (link_of r) u m | None \<Rightarrow> m)
      m0 rs) l = Some u \<Longrightarrow>
   map_of m0 l = Some u \<or> (\<exists>r \<in> set rs. link_of r = l \<and> result_of r = Some u)"
proof (induction rs arbitrary: m0)
  case Nil
  then show ?case by simp
next
  case (Cons r rs)
  define m1 where
    "m1 = (case result_of r of Some u \<Rightarrow> AList.update (link_of r) u m0 | None \<Rightarrow> m0)"
  from Cons.prems have "map_of (foldl (\<lambda>m r. case result_of r of
      Some u \<Rightarrow> AList.update (link_of r) u m | None \<Rightarrow> m) m1 rs) l = Some u"
    by (simp add: m1_def)
  from Cons.IH [OF this] show ?case
    by (auto simp: m1_def update_conv' split: option.splits if_splits)
qed

lemma add_link_files:
  "f \<in> set (foldl (add_link L l2u skip ex) fs links) \<Longrightarrow>
   f \<in> set fs \<or>
   (\<exists>u. map_of l2u (original_link f) = Some u \<and> u_download u = Some (download_url f))"
proof (induction links arbitrary: fs)
  case Nil
  then show ?case by simp
next
  case (Cons link links)
  from Cons.IH [OF Cons.prems [simplified]] show ?case
    by (auto simp: add_link_def Let_def split: option.splits if_splits)
qed

lemma set_update_cases: "x \<in> set (AList.update k v al) \<Longrightarrow> x = (k, v) \<or> x \<in> set al"
  by (induction al) (auto split: if_splits)

lemma groups_files_aux:
  assumes "(i, g) \<in> set (foldl (\<lambda>groups (torrent_id, t).
         (let name = (case tname t of Some n \<Rightarrow> n | None \<Rightarrow> py ''torrent_'' @ torrent_id);
              fs = foldl (add_link L l2u skip ex) [] (tlinks t)
          in if fs \<noteq> [] then
               AList.update torrent_id
                 \<lparr>torrent_name = name, folder_name = sanitize_folder_name L name,
                  group_files = fs\<rparr> groups
             else groups)) gs tm)"
  shows "(i, g) \<in> set gs \<or> (\<exists>links. group_files g = foldl (add_link L l2u skip ex) [] links)"
  using assms
proof (induction tm arbitrary: gs)
  case Nil
  then show ?case by simp
next
  case (Cons x tm)
  obtain torrent_id t where x: "x = (torrent_id, t)" by (cases x)
  from Cons.IH [OF Cons.prems [simplified]] show ?case
    unfolding x by (auto simp: Let_def split: if_splits dest!: set_update_cases)
qed

lemma groups_files:
  assumes "(i, g) \<in> set (create_torrent_groups_with_skip L ts data skip ex)"
    and "f \<in> set (group_files g)"
  shows "\<exists>r \<in> set data. link_of r = original_link f \<and>
    (\<exists>u. result_of r = Some u \<and> u_download u = Some (download_url f))"
proof -
  from assms(1) have "(i, g) \<in> set (foldl (\<lambda>groups (torrent_id, t).
         (let name = (case tname t of Some n \<Rightarrow> n | None \<Rightarrow> py ''torrent_'' @ torrent_id);
              fs = foldl (add_link L (link_to_unrestricted data) skip ex) [] (tlinks t)
          in if fs \<noteq> [] then
               AList.update torrent_id
                 \<lparr>torrent_name = name, folder_name = sanitize_folder_name L name,
                  group_files = fs\<rparr> groups
             else groups)) [] (torrent_map ts))"
    by (simp add: create_torrent_groups_with_skip_def Let_def)
  from groups_files_aux [OF this] obtain links where
    "group_files g = foldl (add_link L (link_to_unrestricted data) skip ex) [] links"
    by auto
  with assms(2) obtain u where
    u: "map_of (link_to_unrestricted data) (original_link f) = Some u"
      "u_download u = Some (download_url f)"
    using add_link_files [of f L "link_to_unrestricted data" skip ex "[]" links] by auto
  from u(1) have "\<exists>r \<in> set data. link_of r = original_link f \<and> result_of r = Some u"
    unfolding link_to_unrestricted_def
    using link_to_unrestricted_keys [of "[]" data "original_link f" u] by simp
  with u(2) show ?thesis by blast
qed

lemma write_strm_files:
  "e \<in> set (files (tree (write_strm q url st))) \<Longrightarrow>
   e \<in> set (files (tree st)) \<or> e = (q, Text url)"
  by (auto simp: write_strm_def Let_def split: if_splits dest!: set_update_cases)

lemma group_strm_files:
  "e \<in> set (files (tree (foldl (\<lambda>st f. write_strm (strm_path g f) (download_url f) st) st fs))) \<Longrightarrow>
   e \<in> set (files (tree st)) \<or> (\<exists>f \<in> set fs. e = (strm_path g f, Text (download_url f)))"
proof (induction fs arbitrary: st)
  case Nil
  then show ?case by simp
next
  case (Cons f fs)
  from Cons.IH [OF Cons.prems [simplified]] show ?case
    by (auto dest!: write_strm_files)
qed

lemma create_grouped_strm_files_aux:
  "e \<in> set (files (tree (foldl (\<lambda>st (torrent_id, g).
        foldl (\<lambda>st f. write_strm (strm_path g f) (download_url f) st) st (group_files g))
       st gs))) \<Longrightarrow>
   e \<in> set (files (tree st)) \<or>
   (\<exists>(i, g) \<in> set gs. \<exists>f \<in> set (group_files g). e = (strm_path g f, Text (download_url f)))"
proof (induction gs arbitrary: st)
  case Nil
  then show ?case by simp
next
  case (Cons x gs)
  obtain i g where x: "x = (i, g)" by (cases x)
  from Cons.IH [OF Cons.prems [simplified]] show ?case
    unfolding x by (auto dest!: group_strm_files)
qed

lemma create_grouped_strm_files_entries:
  "e \<in> set (files (tree (create_grouped_strm_files gs m))) \<Longrightarrow>
   e \<in> set (files m) \<or>
   (\<exists>(i, g) \<in> set gs. \<exists>f \<in> set (group_files g). e = (strm_path g f, Text (download_url f)))"
  unfolding create_grouped_strm_files_def
  by (drule create_grouped_strm_files_aux) simp

lemma group_and_write_entries:
  assumes "e \<in> set (files (media_tree (snd (group_and_write L ts data skip ex w))))"
  shows "e \<in> set (files (media_tree w)) \<or>
    (\<exists>r \<in> set data. \<exists>u url. result_of r = Some u \<and> u_download u = Some url \<and>
       snd e = Text url)"
proof -
  from assms have "e \<in> set (files (tree (create_grouped_strm_files
      (create_torrent_groups_with_skip L ts data skip ex) (media_tree w))))"
    by (simp add: group_and_write_def Let_def)
  from create_grouped_strm_files_entries [OF this] show ?thesis
  proof
    assume "e \<in> set (files (media_tree w))"
    then show ?thesis ..
  next
    assume "\<exists>(i, g) \<in> set (create_torrent_groups_with_skip L ts data skip ex).
      \<exists>f \<in> set (group_files g). e = (strm_path g f, Text (download_url f))"
    then obtain i g f where ig: "(i, g) \<in> set (create_torrent_groups_with_skip L ts data skip ex)"
      and f: "f \<in> set (group_files g)" and e: "e = (strm_path g f, Text (download_url f))"
      by auto
    from groups_files [OF ig f] e show ?thesis by auto
  qed
qed

lemma group_and_write_out: "out (snd (group_and_write L ts data skip ex w)) = out w"
  by (simp add: group_and_write_def Let_def)

lemma process_from_api_load:
  assumes "k \<noteq> []" "\<not> cm" "torrents_file (out w) \<noteq> Absent" "unrestricted_file (out w) \<noteq> Absent"
  shows "fst (snd (process_from_api L k lr c net w skip ex cm)) = w \<or>
    (\<exists>ts. fst (snd (process_from_api L k lr c net w skip ex cm)) =
      snd (group_and_write L ts (recorded (out w)) skip ex w))"
proof (cases "torrents_file (out w)")
  case Absent
  with assms show ?thesis by simp
next
  case (Unreadable e)
  with assms show ?thesis by (simp add: process_from_api_def)
next
  case (Stored ts)
  show ?thesis
  proof (cases "unrestricted_file (out w)")
    case Absent
    with assms show ?thesis by simp
  next
    case (Unreadable e)
    with assms Stored show ?thesis by (simp add: process_from_api_def)
  next
    case data: (Stored data)
    with assms Stored have "fst (snd (process_from_api L k lr c net w skip ex cm)) =
      snd (group_and_write L ts (recorded (out w)) skip ex w)"
      by (simp add: process_from_api_def recorded_def split: prod.splits)
    then show ?thesis by blast
  qed
qed

lemma process_from_api_fetch:
  assumes "k \<noteq> []"
    "cm \<or> torrents_file (out w) = Absent \<or> unrestricted_file (out w) = Absent"
    "process_torrents_with_grouping c net (out w) = (res, od1, evs)"
  shows "fst (snd (process_from_api L k lr c net w skip ex cm)) = w \<or>
    fst (snd (process_from_api L k lr c net w skip ex cm)) = w\<lparr>out := od1\<rparr> \<or>
    (\<exists>ts. fst (snd (process_from_api L k lr c net w skip ex cm)) =
      snd (group_and_write L ts (recorded od1) skip ex (w\<lparr>out := od1\<rparr>)))"
proof (cases lr)
  case True
  with assms have "fst (snd (process_from_api L k lr c net w skip ex cm)) = w"
    by (auto simp: process_from_api_def run_real_debrid_sync_def)
  then show ?thesis ..
next
  case False
  with assms have p: "process_from_api L k lr c net w skip ex cm =
      (case res of
         Api_failure e \<Rightarrow> (Proc_failure e, w\<lparr>out := od1\<rparr>, evs)
       | Api_success s \<Rightarrow>
          (case (torrents_file od1, unrestricted_file od1) of
             (Stored torrents, Stored unrestricted_data) \<Rightarrow>
               (let (r, w1) = group_and_write L torrents unrestricted_data skip ex
                     (w\<lparr>out := od1\<rparr>)
                in (r, w1, evs))
           | (Unreadable e, _) \<Rightarrow> (Proc_failure e, w\<lparr>out := od1\<rparr>, evs)
           | (_, Unreadable e) \<Rightarrow> (Proc_failure e, w\<lparr>out := od1\<rparr>, evs)
           | _ \<Rightarrow> (Proc_failure [], w\<lparr>out := od1\<rparr>, evs)))"
    by (auto simp: process_from_api_def run_real_debrid_sync_def)
  show ?thesis
  proof (cases res)
    case (Api_failure e)
    then show ?thesis by (simp add: p)
  next
    case (Api_success s)
    show ?thesis
    proof (cases "torrents_file od1")
      case Absent
      then show ?thesis by (simp add: p Api_success split: stored.splits)
    next
      case (Unreadable e)
      then show ?thesis by (simp add: p Api_success)
    next
      case (Stored ts)
      show ?thesis
      proof (cases "unrestricted_file od1")
        case Absent
        then show ?thesis by (simp add: p Api_success Stored)
      next
        case (Unreadable e)
        then show ?thesis by (simp add: p Api_success Stored)
      next
        case data: (Stored data)
        have "fst (snd (process_from_api L k lr c net w skip ex cm)) =
          snd (group_and_write L ts (recorded od1) skip ex (w\<lparr>out := od1\<rparr>))"
          by (simp add: p Api_success Stored data recorded_def split: prod.splits)
        then show ?thesis by blast
      qed
    qed
  qed
qed

lemma process_from_api_world:
  "fst (snd (process_from_api L k lr c net w skip ex cm)) = w \<or>
   fst (snd (process_from_api L k lr c net w skip ex cm)) =
     w\<lparr>out := fst (snd (process_torrents_with_grouping c net (out w)))\<rparr> \<or>
   (\<exists>ts. fst (snd (process_from_api L k lr c net w skip ex cm)) =
      snd (group_and_write L ts (recorded (out w)) skip ex w)) \<or>
   (\<exists>ts. fst (snd (process_from_api L k lr c net w skip ex cm)) =
      snd (group_and_write L ts
        (recorded (fst (snd (process_torrents_with_grouping c net (out w))))) skip ex
        (w\<lparr>out := fst (snd (process_torrents_with_grouping c net (out w)))\<rparr>)))"
proof (cases "k = []")
  case True
  then show ?thesis by (simp add: process_from_api_def)
next
  case k: False
  show ?thesis
  proof (cases "cm \<or> torrents_file (out w) = Absent \<or> unrestricted_file (out w) = Absent")
    case True
    obtain res od1 evs where p: "process_torrents_with_grouping c net (out w) = (res, od1, evs)"
      by (cases "process_torrents_with_grouping c net (out w)")
    from process_from_api_fetch [OF k True p, of L lr skip ex] show ?thesis
      by (simp add: p) blast
  next
    case False
    then have "\<not> cm" "torrents_file (out w) \<noteq> Absent" "unrestricted_file (out w) \<noteq> Absent"
      by simp_all
    from process_from_api_load [OF k this, of L lr c net skip ex] show ?thesis by blast
  qed
qed

text \<open>
  Claim C10. The links collected for resolution are exactly the links of the downloaded
  torrents that start with \<^verbatim>\<open>https://real-debrid.com/d/\<close>. A pass sends to the unrestrict
  endpoint only links that were collected, so every link it sends has the prefix and belongs
  to a downloaded torrent of the catalog. When every outcome recorded in
  \<^verbatim>\<open>realdebrid_unrestricted.json\<close> belongs to a link with the prefix, as it does in a new
  output directory, then the same holds after \<^verbatim>\<open>process_from_api\<close>, every file that the
  grouping queues for a pointer file comes from a link with the prefix, and every entry of the
  tree of pointer files that was not there before holds the download URL of a recorded
  outcome of a link with the prefix.
\<close>

theorem only_prefixed_links_are_resolved:
  "set (collect_links ts) =
     {l. \<exists>t \<in> set ts. is_downloaded t \<and> l \<in> set (tlinks t) \<and> startswith l rd_prefix} \<and>
   (\<forall>l. Post l \<in> set (snd (snd (process_torrents_with_grouping c net od))) \<longrightarrow>
      startswith l rd_prefix \<and>
      (\<exists>t \<in> set (fst (fetch_torrents (pages net))). is_downloaded t \<and> l \<in> set (tlinks t))) \<and>
   ((\<forall>r \<in> set data. startswith (link_of r) rd_prefix) \<longrightarrow>
      (\<forall>(i, g) \<in> set (create_torrent_groups_with_skip L ts data skip_existing existing_urls).
         \<forall>f \<in> set (group_files g). startswith (original_link f) rd_prefix)) \<and>
   ((\<forall>r \<in> set (recorded (out w)). startswith (link_of r) rd_prefix) \<longrightarrow>
      (\<forall>r \<in> set (recorded (out (fst (snd (process_from_api L api_key loop_running c net w
            skip_existing existing_urls cycle_mode))))).
         startswith (link_of r) rd_prefix) \<and>
      (\<forall>e \<in> set (files (media_tree (fst (snd (process_from_api L api_key loop_running c net w
            skip_existing existing_urls cycle_mode))))).
         e \<in> set (files (media_tree w)) \<or>
         (\<exists>r \<in> set (recorded (out (fst (snd (process_from_api L api_key loop_running c net w
              skip_existing existing_urls cycle_mode))))).
            startswith (link_of r) rd_prefix \<and>
            (\<exists>u url. result_of r = Some u \<and> u_download u = Some url \<and> snd e = Text url))))"
proof (intro conjI)
  show "set (collect_links ts) =
     {l. \<exists>t \<in> set ts. is_downloaded t \<and> l \<in> set (tlinks t) \<and> startswith l rd_prefix}"
    by (rule collect_links_set)
  show "\<forall>l. Post l \<in> set (snd (snd (process_torrents_with_grouping c net od))) \<longrightarrow>
      startswith l rd_prefix \<and>
      (\<exists>t \<in> set (fst (fetch_torrents (pages net))). is_downloaded t \<and> l \<in> set (tlinks t))"
  proof (intro allI impI)
    fix l
    assume "Post l \<in> set (snd (snd (process_torrents_with_grouping c net od)))"
    then have "l \<in> set (collect_links (fst (fetch_torrents (pages net))))" by (rule pass_posts)
    then show "startswith l rd_prefix \<and>
      (\<exists>t \<in> set (fst (fetch_torrents (pages net))). is_downloaded t \<and> l \<in> set (tlinks t))"
      unfolding collect_links_set by blast
  qed
  show "(\<forall>r \<in> set data. startswith (link_of r) rd_prefix) \<longrightarrow>
      (\<forall>(i, g) \<in> set (create_torrent_groups_with_skip L ts data skip_existing existing_urls).
         \<forall>f \<in> set (group_files g). startswith (original_link f) rd_prefix)"
  proof (intro impI ballI, clarify)
    fix i g f
    assume inv: "\<forall>r \<in> set data. startswith (link_of r) rd_prefix"
      and ig: "(i, g) \<in> set (create_torrent_groups_with_skip L ts data skip_existing existing_urls)"
      and f: "f \<in> set (group_files g)"
    from groups_files [OF ig f] inv show "startswith (original_link f) rd_prefix" by auto
  qed
  show "(\<forall>r \<in> set (recorded (out w)). startswith (link_of r) rd_prefix) \<longrightarrow>
      (\<forall>r \<in> set (recorded (out (fst (snd (process_from_api L api_key loop_running c net w
            skip_existing existing_urls cycle_mode))))).
         startswith (link_of r) rd_prefix) \<and>
      (\<forall>e \<in> set (files (media_tree (fst (snd (process_from_api L api_key loop_running c net w
            skip_existing existing_urls cycle_mode))))).
         e \<in> set (files (media_tree w)) \<or>
         (\<exists>r \<in> set (recorded (out (fst (snd (process_from_api L api_key loop_running c net w
              skip_existing existing_urls cycle_mode))))).
            startswith (link_of r) rd_prefix \<and>
            (\<exists>u url. result_of r = Some u \<and> u_download u = Some url \<and> snd e = Text url)))"
  proof
    assume inv: "\<forall>r \<in> set (recorded (out w)). startswith (link_of r) rd_prefix"
    define od1 where "od1 = fst (snd (process_torrents_with_grouping c net (out w)))"
    define w' where "w' = fst (snd (process_from_api L api_key loop_running c net w
            skip_existing existing_urls cycle_mode))"
    have inv1: "\<forall>r \<in> set (recorded od1). startswith (link_of r) rd_prefix"
    proof
      fix r
      assume "r \<in> set (recorded od1)"
      then have "r \<in> set (recorded (out w)) \<or>
          link_of r \<in> set (collect_links (fst (fetch_torrents (pages net))))"
        unfolding od1_def by (rule pass_recorded)
      with inv show "startswith (link_of r) rd_prefix"
        unfolding collect_links_set by blast
    qed
    have entries: "e \<in> set (files (media_tree v)) \<or>
        (\<exists>r \<in> set (recorded (out v)). startswith (link_of r) rd_prefix \<and>
          (\<exists>u url. result_of r = Some u \<and> u_download u = Some url \<and> snd e = Text url))"
      if "e \<in> set (files (media_tree (snd (group_and_write L ts (recorded (out v)) skip_existing
            existing_urls v))))"
        and "\<forall>r \<in> set (recorded (out v)). startswith (link_of r) rd_prefix"
      for e v ts
      using group_and_write_entries [OF that(1)] that(2) by blast
    from process_from_api_world [of L api_key loop_running c net w skip_existing existing_urls
        cycle_mode]
    consider "w' = w" | "w' = w\<lparr>out := od1\<rparr>"
      | ts where "w' = snd (group_and_write L ts (recorded (out w)) skip_existing existing_urls w)"
      | ts where "w' = snd (group_and_write L ts (recorded od1) skip_existing existing_urls
          (w\<lparr>out := od1\<rparr>))"
      unfolding w'_def od1_def by blast
    then have "(\<forall>r \<in> set (recorded (out w')). startswith (link_of r) rd_prefix) \<and>
      (\<forall>e \<in> set (files (media_tree w')).
         e \<in> set (files (media_tree w)) \<or>
         (\<exists>r \<in> set (recorded (out w')). startswith (link_of r) rd_prefix \<and>
            (\<exists>u url. result_of r = Some u \<and> u_download u = Some url \<and> snd e = Text url)))"
    proof cases
      case 1
      with inv show ?thesis by simp
    next
      case 2
      with inv1 show ?thesis by simp
    next
      case 3
      have o: "out w' = out w" unfolding 3 by (rule group_and_write_out)
      show ?thesis unfolding o
      proof (intro conjI)
        show "\<forall>r \<in> set (recorded (out w)). startswith (link_of r) rd_prefix" by (rule inv)
        show "\<forall>e \<in> set (files (media_tree w')). e \<in> set (files (media_tree w)) \<or>
          (\<exists>r \<in> set (recorded (out w)). startswith (link_of r) rd_prefix \<and>
            (\<exists>u url. result_of r = Some u \<and> u_download u = Some url \<and> snd e = Text url))"
        proof
          fix e
          assume "e \<in> set (files (media_tree w'))"
          then show "e \<in> set (files (media_tree w)) \<or>
            (\<exists>r \<in> set (recorded (out w)). startswith (link_of r) rd_prefix \<and>
              (\<exists>u url. result_of r = Some u \<and> u_download u = Some url \<and> snd e = Text url))"
            unfolding 3 using inv by (rule entries)
        qed
      qed
    next
      case 4
      define v where "v = w\<lparr>out := od1\<rparr>"
      have v: "out v = od1" "media_tree v = media_tree w" by (simp_all add: v_def)
      have 4: "w' = snd (group_and_write L ts (recorded (out v)) skip_existing existing_urls v)"
        unfolding 4 v_def by simp
      have o: "out w' = od1" unfolding 4 group_and_write_out by (rule v)
      show ?thesis unfolding o
      proof (intro conjI)
        show "\<forall>r \<in> set (recorded od1). startswith (link_of r) rd_prefix" by (rule inv1)
        show "\<forall>e \<in> set (files (media_tree w')). e \<in> set (files (media_tree w)) \<or>
          (\<exists>r \<in> set (recorded od1). startswith (link_of r) rd_prefix \<and>
            (\<exists>u url. result_of r = Some u \<and> u_download u = Some url \<and> snd e = Text url))"
        proof
          fix e
          assume "e \<in> set (files (media_tree w'))"
          then have "e \<in> set (files (media_tree v)) \<or>
            (\<exists>r \<in> set (recorded (out v)). startswith (link_of r) rd_prefix \<and>
              (\<exists>u url. result_of r = Some u \<and> u_download u = Some url \<and> snd e = Text url))"
            unfolding 4 using inv1 [folded v(1)] by (rule entries)
          then show "e \<in> set (files (media_tree w)) \<or>
            (\<exists>r \<in> set (recorded od1). startswith (link_of r) rd_prefix \<and>
              (\<exists>u url. result_of r = Some u \<and> u_download u = Some url \<and> snd e = Text url))"
            unfolding v .
        qed
      qed
    qed
    then show "(\<forall>r \<in> set (recorded (out (fst (snd (process_from_api L api_key loop_running c net w
            skip_existing existing_urls cycle_mode))))).
         startswith (link_of r) rd_prefix) \<and>
      (\<forall>e \<in> set (files (media_tree (fst (snd (process_from_api L api_key loop_running c net w
            skip_existing existing_urls cycle_mode))))).
         e \<in> set (files (media_tree w)) \<or>
         (\<exists>r \<in> set (recorded (out (fst (snd (process_from_api L api_key loop_running c net w
              skip_existing existing_urls cycle_mode))))).
            startswith (link_of r) rd_prefix \<and>
            (\<exists>u url. result_of r = Some u \<and> u_download u = Some url \<and> snd e = Text url)))"
      unfolding w'_def .
  qed
qed

theorem only_prefixed_links_are_resolved_witness:
  "recorded (out empty_world) = [] \<and>
   is_downloaded t_mixed \<and> tlinks t_mixed = [link_other, link_1] \<and>
   \<not> startswith link_other rd_prefix \<and> startswith link_1 rd_prefix \<and>
   set (collect_links [t_mixed]) = {link_1} \<and>
   Post link_other \<notin> set (snd (snd (process_torrents_with_grouping c0 net_mixed (out empty_world)))) \<and>
   link_other \<notin> link_of ` set (recorded (out (fst (snd (process_from_api ascii_tables (py ''KEY'')
      False c0 net_mixed empty_world False {} False)))))"
proof -
  note t = only_prefixed_links_are_resolved [where ts = "[t_mixed]" and c = c0 and net = net_mixed
      and od = "out empty_world" and w = empty_world and L = ascii_tables
      and api_key = "py ''KEY''" and loop_running = False and skip_existing = False
      and existing_urls = "{}" and cycle_mode = False and data = "[]"]
  have r: "recorded (out empty_world) = []" by (simp add: recorded_def empty_world_def)
  have d: "is_downloaded t_mixed" "tlinks t_mixed = [link_other, link_1]"
    by (simp_all add: is_downloaded_def t_mixed_def)
  have o: "\<not> startswith link_other rd_prefix"
    by (simp add: startswith_def rd_prefix_def link_other_def py_def)
  have l: "startswith link_1 rd_prefix"
    by (simp add: startswith_def rd_prefix_def link_1_def py_def)
  from t d o l have c: "set (collect_links [t_mixed]) = {link_1}" by auto
  from t o have p: "Post link_other \<notin>
      set (snd (snd (process_torrents_with_grouping c0 net_mixed (out empty_world))))"
    by blast
  from t r o have "link_other \<notin> link_of ` set (recorded (out (fst (snd (process_from_api
      ascii_tables (py ''KEY'') False c0 net_mixed empty_world False {} False)))))"
    by auto
  with r d o l c p show ?thesis by simp
qed

section \<open>Properties: a second pass over the pointer files\<close>

lemma sanitize_filename_movie:
  "sanitize_filename ascii_tables (py ''Movie.mkv'') = py ''Movie''"
  "sanitize_filename ascii_tables (py ''Movie.srt'') = py ''Movie''"
  by (simp_all add: name_defs)

lemma sanitize_folder_name_movie: "sanitize_folder_name ascii_tables (py ''Movie'') = py ''Movie''"
  by (simp add: sanitize_folder_name_def path_suffix_def path_name_def suffix_at_def
      allowed_video_extensions_def allowed_subtitle_extensions_def name_defs Let_def)

lemma should_process_file_movie:
  "should_process_file ascii_tables (py ''Movie.mkv'') 524288000 (py ''video/x-matroska'') =
     \<lparr>should_process = True, category = py ''video''\<rparr>"
  "should_process_file ascii_tables (py ''Movie.srt'') 40000 (py ''application/x-subrip'') =
     \<lparr>should_process = True, category = py ''subtitle''\<rparr>"
  by (simp_all add: should_process_file_def filesize_mb_def min_video_size_mb_def policy_inputs)

lemma create_torrent_groups_movie:
  "create_torrent_groups_with_skip ascii_tables [t1] outcomes_movie False {} = groups_movie"
proof -
  have m: "torrent_map [t1] = [(py ''T1'', t1)]"
    by (simp add: torrent_map_def is_downloaded_def t1_def)
  have l: "link_to_unrestricted outcomes_movie = [(link_1, u_mkv), (link_2, u_srt)]"
    by (simp add: link_to_unrestricted_def outcomes_movie_def link_1_def link_2_def py_def)
  have t: "tlinks t1 = [link_1, link_2]" "tname t1 = Some (py ''Movie'')"
    by (simp_all add: t1_def link_1_def link_2_def)
  have n: "link_2 \<noteq> link_1" by (simp add: link_1_def link_2_def py_def)
  have e: "py ''https://dl.example/d/L1/Movie.mkv'' \<noteq> []" "py ''Movie.mkv'' \<noteq> []"
    "py ''https://dl.example/d/L2/Movie.srt'' \<noteq> []" "py ''Movie.srt'' \<noteq> []"
    by (simp_all add: py_def)
  have a: "foldl (add_link ascii_tables [(link_1, u_mkv), (link_2, u_srt)] False {}) []
      [link_1, link_2] = group_files (snd (hd groups_movie))"
    using n n [symmetric] e
    by (simp add: add_link_def u_mkv_def u_srt_def should_process_file_movie
        sanitize_filename_movie groups_movie_def Let_def)
  show ?thesis
    unfolding create_torrent_groups_with_skip_def m l
    using a by (simp add: t sanitize_folder_name_movie Let_def groups_movie_def)
qed

text \<open>
  Claim C3. A second pass with unchanged inputs over the tree the first pass left is to write
  nothing. It does not when two files of a torrent get the same pointer file: for a torrent
  with \<^verbatim>\<open>Movie.mkv\<close> and \<^verbatim>\<open>Movie.srt\<close>, both names are sanitized to \<^verbatim>\<open>Movie\<close>, so both
  files are written to \<^verbatim>\<open>Movie/Movie.strm\<close>. The first pass writes the URL of the film and
  then the URL of the subtitle over it. The second pass finds the URL of the subtitle, which
  is not that of the film, and writes the file again, twice, where the claim says it skips:
  two writes, no skip, and the same tree as before.
\<close>

theorem second_pass_rewrites_colliding_names:
  "create_torrent_groups_with_skip ascii_tables [t1] outcomes_movie False {} = groups_movie \<and>
   create_grouped_strm_files groups_movie (media_tree empty_world) =
     \<lparr>tree = tree_movie, created_count = 2, skipped_count = 0\<rparr> \<and>
   create_grouped_strm_files groups_movie tree_movie =
     \<lparr>tree = tree_movie, created_count = 2, skipped_count = 0\<rparr> \<and>
   fst (group_and_write ascii_tables [t1] outcomes_movie False {}
          \<lparr>out = out empty_world, media_tree = tree_movie\<rparr>) =
     Proc_success \<lparr>torrents_processed = 1, total_files = 2, strm_files_created = 2,
       strm_files_skipped = 0, folders_created = 1\<rparr>"
proof -
  have p1: "create_grouped_strm_files groups_movie (media_tree empty_world) =
     \<lparr>tree = tree_movie, created_count = 2, skipped_count = 0\<rparr>"
    by (simp add: create_grouped_strm_files_def groups_movie_def empty_world_def write_strm_def
        strm_path_def tree_movie_def strip_def is_space_def Let_def py_def)
  have p2: "create_grouped_strm_files groups_movie tree_movie =
     \<lparr>tree = tree_movie, created_count = 2, skipped_count = 0\<rparr>"
    by (simp add: create_grouped_strm_files_def groups_movie_def write_strm_def
        strm_path_def tree_movie_def strip_def is_space_def Let_def py_def)
  have g: "fst (group_and_write ascii_tables [t1] outcomes_movie False {}
          \<lparr>out = out empty_world, media_tree = tree_movie\<rparr>) =
     Proc_success \<lparr>torrents_processed = 1, total_files = 2, strm_files_created = 2,
       strm_files_skipped = 0, folders_created = 1\<rparr>"
    unfolding group_and_write_def create_torrent_groups_movie
    by (simp add: p2 Let_def) (simp add: groups_movie_def)
  from create_torrent_groups_movie p1 p2 g show ?thesis by simp
qed

section \<open>Properties: the retry queue\<close>





end
